theory Spec2Isabelle
  imports Main "HOL-Library.Word"
begin

section \<open>Faults, allocation and the call log\<close>

text \<open>
  The stream implementation of \<^verbatim>\<open>rdf_stream.c\<close> is embedded with explicit state
  passing. A C function that dereferences a null pointer or reaches the fatal macro ends in a
  \<open>fault\<close>; every call that leaves the file (a producer callback, the map callback, a
  release of memory) is appended to a call log, so that "how often" and "what was released"
  are properties of the result.
\<close>

datatype fault = Null_Dereference | Fatal_Abort

datatype 'st call =
    Call_end_of_stream
  | Call_next_statement
  | Call_map 'st "'st option"
  | Call_finished
  | Call_free_statement 'st
  | Call_free_stream

text \<open>
  Modelled from the spec: the allocation macro \<^verbatim>\<open>LIBRDF_CALLOC\<close> is declared in
  \<^verbatim>\<open>librdf.h\<close>, which is not among the sources. An allocation either succeeds
  (zero-filled memory) or fails (null); which one is decided by the environment, here the
  list of outcomes of the allocation attempts still to come. Attempts beyond the list succeed.
\<close>

definition LIBRDF_CALLOC :: "bool list \<Rightarrow> bool \<times> bool list" where
  "LIBRDF_CALLOC allocs = (case allocs of [] \<Rightarrow> (True, []) | ok # rest \<Rightarrow> (ok, rest))"

section \<open>The stream object\<close>

text \<open>
  Modelled from the spec: the structure \<^verbatim>\<open>librdf_stream\<close> is declared in
  \<^verbatim>\<open>rdf_stream.h\<close>, which is not among the sources. Its fields are taken from their
  uses in \<^verbatim>\<open>rdf_stream.c\<close>, each with the suffix \<open>_C\<close>: the producer context and the
  three producer operations, the optional map with its context, the single lookahead slot
  and the ended flag. The field \<open>context_C\<close> holds the state of the producer that the
  opaque context pointer gives access to; a callback receives it and returns it updated.
  The three producer callbacks are non-null function pointers that may abort; \<open>map_C\<close>
  is nullable. The map is a pure function of its context and the statement. The ended flag
  \<open>is_end_stream_C\<close> is a C \<^verbatim>\<open>int\<close>; nothing is computed with it but a test against
  zero.
\<close>

record ('c, 'm, 'st) librdf_stream =
  context_C :: 'c
  end_of_stream_C :: "'c \<Rightarrow> fault + int \<times> 'c"
  next_statement_C :: "'c \<Rightarrow> fault + 'st option \<times> 'c"
  finished_C :: "'c \<Rightarrow> fault + 'c"
  map_C :: "('m option \<Rightarrow> 'st \<Rightarrow> 'st option) option"
  map_context_C :: "'m option"
  next_C :: "'st option"
  is_end_stream_C :: int

text \<open>\<^verbatim>\<open>librdf_new_stream\<close>: the world argument is not used by the body.\<close>

definition librdf_new_stream ::
  "bool list \<Rightarrow> 'w \<Rightarrow> 'c \<Rightarrow> ('c \<Rightarrow> fault + int \<times> 'c) \<Rightarrow> ('c \<Rightarrow> fault + 'st option \<times> 'c)
     \<Rightarrow> ('c \<Rightarrow> fault + 'c) \<Rightarrow> ('c, 'm, 'st) librdf_stream option \<times> bool list" where
  "librdf_new_stream allocs world context end_of_stream next_statement finished =
     (case LIBRDF_CALLOC allocs of
        (False, allocs') \<Rightarrow> (None, allocs')
      | (True, allocs') \<Rightarrow>
          (Some \<lparr> context_C = context,
                  end_of_stream_C = end_of_stream,
                  next_statement_C = next_statement,
                  finished_C = finished,
                  map_C = None,
                  map_context_C = None,
                  next_C = None,
                  is_end_stream_C = 0 \<rparr>, allocs'))"

text \<open>
  \<^verbatim>\<open>librdf_free_stream\<close>: no null test precedes \<^verbatim>\<open>stream->finished\<close>. The calls
  of \<^verbatim>\<open>librdf_free_statement\<close> and \<^verbatim>\<open>LIBRDF_FREE\<close> are entries of the call log. The
  result is the producer state that the finalizer leaves and the extended call log; the
  stream object itself is gone.
\<close>

definition librdf_free_stream ::
  "('c, 'm, 'st) librdf_stream option \<Rightarrow> 'st call list \<Rightarrow> fault + 'c \<times> 'st call list" where
  "librdf_free_stream stream log =
     (case stream of
        None \<Rightarrow> Inl Null_Dereference
      | Some s \<Rightarrow>
          (case finished_C s (context_C s) of
             Inl f \<Rightarrow> Inl f
           | Inr c \<Rightarrow>
               (let log1 = log @ [Call_finished];
                    log2 = (case next_C s of
                              Some st \<Rightarrow> log1 @ [Call_free_statement st]
                            | None \<Rightarrow> log1)
                in Inr (c, log2 @ [Call_free_stream]))))"

text \<open>
  \<^verbatim>\<open>librdf_stream_get_next_mapped_statement\<close>: the loop that finds the next statement
  the map lets through. It need not end (a producer that never ends under a map that
  discards everything), so not returning is the value \<open>None\<close>. The map pointer is called
  without a test.
\<close>

partial_function (option) librdf_stream_get_next_mapped_statement ::
  "('c, 'm, 'st) librdf_stream \<Rightarrow> 'st call list
     \<Rightarrow> (fault + 'st option \<times> ('c, 'm, 'st) librdf_stream \<times> 'st call list) option" where
  "librdf_stream_get_next_mapped_statement s log =
     (case end_of_stream_C s (context_C s) of
        Inl f \<Rightarrow> Some (Inl f)
      | Inr (e, c1) \<Rightarrow>
          (if e \<noteq> 0 then
             Some (Inr (None, s\<lparr>context_C := c1\<rparr>, log @ [Call_end_of_stream]))
           else
             (case next_statement_C s c1 of
                Inl f \<Rightarrow> Some (Inl f)
              | Inr (None, c2) \<Rightarrow>
                  Some (Inr (None, s\<lparr>context_C := c2\<rparr>,
                             log @ [Call_end_of_stream, Call_next_statement]))
              | Inr (Some st, c2) \<Rightarrow>
                  (case map_C s of
                     None \<Rightarrow> Some (Inl Null_Dereference)
                   | Some m \<Rightarrow>
                       (case m (map_context_C s) st of
                          Some st' \<Rightarrow>
                            Some (Inr (Some st', s\<lparr>context_C := c2\<rparr>,
                                       log @ [Call_end_of_stream, Call_next_statement,
                                              Call_map st (Some st')]))
                        | None \<Rightarrow>
                            librdf_stream_get_next_mapped_statement (s\<lparr>context_C := c2\<rparr>)
                              (log @ [Call_end_of_stream, Call_next_statement,
                                      Call_map st None]))))))"

text \<open>\<^verbatim>\<open>librdf_stream_next\<close>: no null test precedes \<^verbatim>\<open>stream->is_end_stream\<close>.\<close>

definition librdf_stream_next ::
  "('c, 'm, 'st) librdf_stream option \<Rightarrow> 'st call list
     \<Rightarrow> (fault + 'st option \<times> ('c, 'm, 'st) librdf_stream option \<times> 'st call list) option" where
  "librdf_stream_next stream log =
     (case stream of
        None \<Rightarrow> Some (Inl Null_Dereference)
      | Some s \<Rightarrow>
          if is_end_stream_C s \<noteq> 0 then Some (Inr (None, Some s, log))
          else if map_C s = None then
            (case next_statement_C s (context_C s) of
               Inl f \<Rightarrow> Some (Inl f)
             | Inr (statement, c) \<Rightarrow>
                 Some (Inr (statement, Some (s\<lparr>context_C := c\<rparr>), log @ [Call_next_statement])))
          else
            (case next_C s of
               Some statement \<Rightarrow> Some (Inr (Some statement, Some (s\<lparr>next_C := None\<rparr>), log))
             | None \<Rightarrow>
                 (case librdf_stream_get_next_mapped_statement s log of
                    None \<Rightarrow> None
                  | Some (Inl f) \<Rightarrow> Some (Inl f)
                  | Some (Inr (None, s', log')) \<Rightarrow>
                      Some (Inr (None, Some (s'\<lparr>is_end_stream_C := 1\<rparr>), log'))
                  | Some (Inr (Some statement, s', log')) \<Rightarrow>
                      Some (Inr (Some statement, Some s', log')))))"

text \<open>
  \<^verbatim>\<open>librdf_stream_end\<close>: a null stream is at its end. Without a map the value of the
  producer's end test is stored in the flag and returned as it is.
\<close>

definition librdf_stream_end ::
  "('c, 'm, 'st) librdf_stream option \<Rightarrow> 'st call list
     \<Rightarrow> (fault + int \<times> ('c, 'm, 'st) librdf_stream option \<times> 'st call list) option" where
  "librdf_stream_end stream log =
     (case stream of
        None \<Rightarrow> Some (Inr (1, None, log))
      | Some s \<Rightarrow>
          if is_end_stream_C s \<noteq> 0 then Some (Inr (1, Some s, log))
          else if map_C s = None then
            (case end_of_stream_C s (context_C s) of
               Inl f \<Rightarrow> Some (Inl f)
             | Inr (e, c) \<Rightarrow>
                 Some (Inr (e, Some (s\<lparr>context_C := c, is_end_stream_C := e\<rparr>),
                            log @ [Call_end_of_stream])))
          else if next_C s \<noteq> None then Some (Inr (0, Some s, log))
          else
            (case librdf_stream_get_next_mapped_statement s log of
               None \<Rightarrow> None
             | Some (Inl f) \<Rightarrow> Some (Inl f)
             | Some (Inr (None, s', log')) \<Rightarrow>
                 Some (Inr (1, Some (s'\<lparr>next_C := None, is_end_stream_C := 1\<rparr>), log'))
             | Some (Inr (Some statement, s', log')) \<Rightarrow>
                 Some (Inr (is_end_stream_C s', Some (s'\<lparr>next_C := Some statement\<rparr>), log'))))"

text \<open>\<^verbatim>\<open>librdf_stream_set_map\<close>: two assignments through the stream pointer.\<close>

definition librdf_stream_set_map ::
  "('c, 'm, 'st) librdf_stream option \<Rightarrow> ('m option \<Rightarrow> 'st \<Rightarrow> 'st option) option \<Rightarrow> 'm option
     \<Rightarrow> fault + ('c, 'm, 'st) librdf_stream option" where
  "librdf_stream_set_map stream map_fn map_context =
     (case stream of
        None \<Rightarrow> Inl Null_Dereference
      | Some s \<Rightarrow> Inr (Some (s\<lparr>map_C := map_fn, map_context_C := map_context\<rparr>)))"

section \<open>A consumer driving the stream\<close>

text \<open>
  A consumer is a list of requests issued in order on one stream; the replies are collected
  in the same order. A fault ends the run, and so does a call that does not return.
\<close>

datatype ('m, 'st) request =
    Do_end
  | Do_next
  | Do_set_map "('m option \<Rightarrow> 'st \<Rightarrow> 'st option) option" "'m option"

datatype 'st reply = Got_end int | Got_next "'st option" | Got_set_map

fun perform ::
  "('m, 'st) request \<Rightarrow> ('c, 'm, 'st) librdf_stream option \<Rightarrow> 'st call list
     \<Rightarrow> (fault + 'st reply \<times> ('c, 'm, 'st) librdf_stream option \<times> 'st call list) option" where
  "perform Do_end stream log =
     (case librdf_stream_end stream log of
        None \<Rightarrow> None
      | Some (Inl f) \<Rightarrow> Some (Inl f)
      | Some (Inr (e, stream', log')) \<Rightarrow> Some (Inr (Got_end e, stream', log')))"
| "perform Do_next stream log =
     (case librdf_stream_next stream log of
        None \<Rightarrow> None
      | Some (Inl f) \<Rightarrow> Some (Inl f)
      | Some (Inr (st, stream', log')) \<Rightarrow> Some (Inr (Got_next st, stream', log')))"
| "perform (Do_set_map map_fn map_context) stream log =
     (case librdf_stream_set_map stream map_fn map_context of
        Inl f \<Rightarrow> Some (Inl f)
      | Inr stream' \<Rightarrow> Some (Inr (Got_set_map, stream', log)))"

fun consume ::
  "('m, 'st) request list \<Rightarrow> ('c, 'm, 'st) librdf_stream option \<Rightarrow> 'st call list
     \<Rightarrow> (fault + 'st reply list \<times> ('c, 'm, 'st) librdf_stream option \<times> 'st call list) option" where
  "consume [] stream log = Some (Inr ([], stream, log))"
| "consume (r # rs) stream log =
     (case perform r stream log of
        None \<Rightarrow> None
      | Some (Inl f) \<Rightarrow> Some (Inl f)
      | Some (Inr (a, stream', log')) \<Rightarrow>
          (case consume rs stream' log' of
             None \<Rightarrow> None
           | Some (Inl f) \<Rightarrow> Some (Inl f)
           | Some (Inr (as, stream'', log'')) \<Rightarrow> Some (Inr (a # as, stream'', log''))))"

fun next_replies :: "'st reply list \<Rightarrow> 'st option list" where
  "next_replies [] = []"
| "next_replies (Got_next st # as) = st # next_replies as"
| "next_replies (_ # as) = next_replies as"

fun next_requests :: "('m, 'st) request list \<Rightarrow> nat" where
  "next_requests [] = 0"
| "next_requests (Do_next # rs) = Suc (next_requests rs)"
| "next_requests (_ # rs) = next_requests rs"

fun is_set_map :: "('m, 'st) request \<Rightarrow> bool" where
  "is_set_map (Do_set_map _ _) = True"
| "is_set_map _ = False"

text \<open>What the call log says: raw elements pulled, elements the map discarded, and so on.\<close>

definition pulls :: "'st call list \<Rightarrow> nat" where
  "pulls log = length (filter (\<lambda>c. c = Call_next_statement) log)"

fun is_discard :: "'st call \<Rightarrow> bool" where
  "is_discard (Call_map _ None) = True"
| "is_discard _ = False"

definition discards :: "'st call list \<Rightarrow> nat" where
  "discards log = length (filter is_discard log)"

definition finalizations :: "'st call list \<Rightarrow> nat" where
  "finalizations log = length (filter (\<lambda>c. c = Call_finished) log)"

fun released_statements :: "'st call list \<Rightarrow> 'st list" where
  "released_statements [] = []"
| "released_statements (Call_free_statement st # log) = st # released_statements log"
| "released_statements (_ # log) = released_statements log"

section \<open>The producer contract\<close>

text \<open>
  A producer obeys the three-operation contract when its states (those satisfying an
  invariant \<open>I\<close>) have a list of remaining elements \<open>elems\<close> such that the end test
  returns, changes nothing of it and is non-zero exactly when it is empty, and the next
  operation returns, hands out its head and keeps its tail, and is absent once it is empty
  and from then on.
\<close>

definition producer_contract ::
  "('c \<Rightarrow> bool) \<Rightarrow> ('c \<Rightarrow> 'st list) \<Rightarrow> ('c \<Rightarrow> fault + int \<times> 'c)
     \<Rightarrow> ('c \<Rightarrow> fault + 'st option \<times> 'c) \<Rightarrow> bool" where
  "producer_contract I elems end_of_stream next_statement \<longleftrightarrow>
     (\<forall>c. I c \<longrightarrow>
        (\<exists>e c'. end_of_stream c = Inr (e, c') \<and> I c' \<and> elems c' = elems c
                \<and> ((e \<noteq> 0) = (elems c = [])))) \<and>
     (\<forall>c. I c \<longrightarrow>
        (\<exists>r c'. next_statement c = Inr (r, c') \<and> I c'
                \<and> r = (case elems c of [] \<Rightarrow> None | x # _ \<Rightarrow> Some x)
                \<and> elems c' = tl (elems c)))"

text \<open>The statements a stream still owes its consumer, in order.\<close>

definition pending :: "('c \<Rightarrow> 'st list) \<Rightarrow> ('c, 'm, 'st) librdf_stream \<Rightarrow> 'st list" where
  "pending elems s =
     (if is_end_stream_C s \<noteq> 0 then []
      else case map_C s of
             None \<Rightarrow> elems (context_C s)
           | Some m \<Rightarrow>
               (case next_C s of None \<Rightarrow> [] | Some st \<Rightarrow> [st])
               @ List.map_filter (m (map_context_C s)) (elems (context_C s)))"

text \<open>
  The replies a consumer expects from its first \<open>n\<close> next requests when the statements
  \<open>sts\<close> are owed: these statements in order, each once, and absent from then on.
\<close>

definition expected_replies :: "nat \<Rightarrow> 'st list \<Rightarrow> 'st option list" where
  "expected_replies n sts = take n (map Some sts @ replicate n None)"

section \<open>A producer over a list\<close>

text \<open>
  The simplest producer: its state is the list of the elements still to come. It stands in
  for a store scan wherever a theorem is applied to a concrete stream.
\<close>

definition list_end_of_stream :: "'st list \<Rightarrow> fault + int \<times> 'st list" where
  "list_end_of_stream c = Inr (if c = [] then 1 else 0, c)"

definition list_next_statement :: "'st list \<Rightarrow> fault + 'st option \<times> 'st list" where
  "list_next_statement c = Inr (case c of [] \<Rightarrow> (None, []) | x # xs \<Rightarrow> (Some x, xs))"

definition list_finished :: "'st list \<Rightarrow> fault + 'st list" where
  "list_finished c = Inr c"

text \<open>A map that lets the odd numbers through and discards the even ones.\<close>

definition odd_only :: "unit option \<Rightarrow> nat \<Rightarrow> nat option" where
  "odd_only map_context st = (if even st then None else Some st)"

section \<open>The adapter from a node iterator\<close>

text \<open>
  Modelled from the spec: statements, nodes and iterators are implemented in other files
  (\<^verbatim>\<open>rdf_statement.c\<close>, \<^verbatim>\<open>rdf_node.c\<close>, \<^verbatim>\<open>rdf_iterator.c\<close>), none of them among the
  sources. A statement is an ordered triple of node references, each of which may be absent;
  nodes are opaque values. Setting a part of a statement stores the node there.
\<close>

record 'n librdf_statement =
  subject_C :: "'n option"
  predicate_C :: "'n option"
  object_C :: "'n option"

definition librdf_statement_set_subject :: "'n librdf_statement \<Rightarrow> 'n \<Rightarrow> 'n librdf_statement" where
  "librdf_statement_set_subject statement node = statement\<lparr>subject_C := Some node\<rparr>"

definition librdf_statement_set_predicate :: "'n librdf_statement \<Rightarrow> 'n \<Rightarrow> 'n librdf_statement" where
  "librdf_statement_set_predicate statement node = statement\<lparr>predicate_C := Some node\<rparr>"

definition librdf_statement_set_object :: "'n librdf_statement \<Rightarrow> 'n \<Rightarrow> 'n librdf_statement" where
  "librdf_statement_set_object statement node = statement\<lparr>object_C := Some node\<rparr>"

text \<open>
  Modelled from the spec: \<^verbatim>\<open>librdf_new_statement_from_statement\<close> returns an independent
  copy of its argument, all parts included, or null when the allocation fails.
\<close>

definition librdf_new_statement_from_statement ::
  "bool list \<Rightarrow> 'n librdf_statement \<Rightarrow> 'n librdf_statement option \<times> bool list" where
  "librdf_new_statement_from_statement allocs statement =
     (case LIBRDF_CALLOC allocs of
        (False, allocs') \<Rightarrow> (None, allocs')
      | (True, allocs') \<Rightarrow> (Some statement, allocs'))"

text \<open>
  Modelled from the spec: an iterator is a lazy sequence of nodes with a has-more test and a
  get-next operation; its state is the list of the nodes still to come, and get-next is null
  exactly when that list is empty.
\<close>

definition librdf_iterator_have_elements :: "'n list \<Rightarrow> int" where
  "librdf_iterator_have_elements iterator = (if iterator = [] then 0 else 1)"

definition librdf_iterator_get_next :: "'n list \<Rightarrow> 'n option \<times> 'n list" where
  "librdf_iterator_get_next iterator =
     (case iterator of [] \<Rightarrow> (None, []) | node # rest \<Rightarrow> (Some node, rest))"

text \<open>
  Modelled from the spec: the selectors \<^verbatim>\<open>LIBRDF_STATEMENT_SUBJECT\<close>,
  \<^verbatim>\<open>LIBRDF_STATEMENT_PREDICATE\<close> and \<^verbatim>\<open>LIBRDF_STATEMENT_OBJECT\<close> are macros of
  \<^verbatim>\<open>rdf_statement.h\<close>, which is not among the sources. Their values are parameters
  here; as labels of one \<^verbatim>\<open>switch\<close> they are pairwise distinct.
\<close>

record statement_selectors =
  LIBRDF_STATEMENT_SUBJECT :: "32 word"
  LIBRDF_STATEMENT_PREDICATE :: "32 word"
  LIBRDF_STATEMENT_OBJECT :: "32 word"


text \<open>
  The structure \<^verbatim>\<open>librdf_stream_from_node_iterator_stream_context\<close>. The iterator
  pointer is nullable and its target is the iterator's state; the prototype statement is a
  valid statement; the field is an \<^verbatim>\<open>unsigned int\<close>.
\<close>

record 'n stream_context =
  iterator_C :: "'n list option"
  statement_C :: "'n librdf_statement"
  field_C :: "32 word"

text \<open>
  Modelled from the spec: \<^verbatim>\<open>librdf_free_node\<close>, \<^verbatim>\<open>librdf_free_iterator\<close> and
  \<^verbatim>\<open>LIBRDF_FREE\<close> release their argument and are defined outside the sources; a
  release is recorded. The environment is what the adapter's callbacks reach besides their
  context: the allocator (the outcomes of the attempts to come) and the record of the nodes,
  iterators and contexts released so far.
\<close>

record 'n environment =
  env_allocs :: "bool list"
  env_freed_nodes :: "'n list"
  env_freed_iterators :: nat
  env_freed_contexts :: nat

type_synonym 'n adapter = "'n stream_context \<times> 'n environment"

text \<open>
  \<^verbatim>\<open>librdf_stream_from_node_iterator_end_of_stream\<close>. The iterator functions are
  taken to dereference the iterator they are given.
\<close>

definition librdf_stream_from_node_iterator_end_of_stream ::
  "'n adapter \<Rightarrow> fault + int \<times> 'n adapter" where
  "librdf_stream_from_node_iterator_end_of_stream context =
     (case context of (scontext, env) \<Rightarrow>
        (case iterator_C scontext of
           None \<Rightarrow> Inl Null_Dereference
         | Some iterator \<Rightarrow>
             Inr (if librdf_iterator_have_elements iterator \<noteq> 0 then 0 else 1, context)))"

text \<open>
  \<^verbatim>\<open>librdf_stream_from_node_iterator_next_statement\<close>. Modelled from the spec: the macro
  \<^verbatim>\<open>LIBRDF_FATAL2\<close> of \<^verbatim>\<open>librdf.h\<close> reports and aborts; it does not return.
\<close>

definition librdf_stream_from_node_iterator_next_statement ::
  "statement_selectors \<Rightarrow> 'n adapter \<Rightarrow> fault + 'n librdf_statement option \<times> 'n adapter" where
  "librdf_stream_from_node_iterator_next_statement K context =
     (case context of (scontext, env) \<Rightarrow>
        (case iterator_C scontext of
           None \<Rightarrow> Inl Null_Dereference
         | Some iterator \<Rightarrow>
             (case librdf_iterator_get_next iterator of
                (None, iterator') \<Rightarrow> Inr (None, (scontext\<lparr>iterator_C := Some iterator'\<rparr>, env))
              | (Some node, iterator') \<Rightarrow>
                  (case librdf_new_statement_from_statement (env_allocs env)
                          (statement_C scontext) of
                     (None, allocs') \<Rightarrow>
                       Inr (None, (scontext\<lparr>iterator_C := Some iterator'\<rparr>,
                                   env\<lparr>env_allocs := allocs',
                                       env_freed_nodes := env_freed_nodes env @ [node]\<rparr>))
                   | (Some statement, allocs') \<Rightarrow>
                       (let context' = (scontext\<lparr>iterator_C := Some iterator'\<rparr>,
                                        env\<lparr>env_allocs := allocs'\<rparr>)
                        in if field_C scontext = LIBRDF_STATEMENT_SUBJECT K then
                             Inr (Some (librdf_statement_set_subject statement node), context')
                           else if field_C scontext = LIBRDF_STATEMENT_PREDICATE K then
                             Inr (Some (librdf_statement_set_predicate statement node), context')
                           else if field_C scontext = LIBRDF_STATEMENT_OBJECT K then
                             Inr (Some (librdf_statement_set_object statement node), context')
                           else Inl Fatal_Abort)))))"

text \<open>
  \<^verbatim>\<open>librdf_stream_from_node_iterator_finished\<close>: releases the iterator when the pointer
  is not null, then the context.
\<close>

definition librdf_stream_from_node_iterator_finished :: "'n adapter \<Rightarrow> fault + 'n adapter" where
  "librdf_stream_from_node_iterator_finished context =
     (case context of (scontext, env) \<Rightarrow>
        (let env1 = (case iterator_C scontext of
                       Some iterator \<Rightarrow> env\<lparr>env_freed_iterators := env_freed_iterators env + 1\<rparr>
                     | None \<Rightarrow> env)
         in Inr (scontext, env1\<lparr>env_freed_contexts := env_freed_contexts env1 + 1\<rparr>)))"

text \<open>
  \<^verbatim>\<open>librdf_new_stream_from_node_iterator\<close>. The field is stored as it comes. The world
  is read through the iterator pointer. The environment that the stream's context reaches
  is the one the constructor leaves.
\<close>

definition librdf_new_stream_from_node_iterator ::
  "statement_selectors \<Rightarrow> 'n environment \<Rightarrow> 'n list option \<Rightarrow> 'n librdf_statement \<Rightarrow> 32 word
     \<Rightarrow> fault + ('n adapter, 'm, 'n librdf_statement) librdf_stream option \<times> 'n environment" where
  "librdf_new_stream_from_node_iterator K env iterator statement field =
     (case LIBRDF_CALLOC (env_allocs env) of
        (False, allocs1) \<Rightarrow> Inr (None, env\<lparr>env_allocs := allocs1\<rparr>)
      | (True, allocs1) \<Rightarrow>
          (let scontext = \<lparr> iterator_C = iterator, statement_C = statement, field_C = field \<rparr>
           in case iterator of
                None \<Rightarrow> Inl Null_Dereference
              | Some it \<Rightarrow>
                  (case librdf_new_stream allocs1 () (scontext, env)
                          librdf_stream_from_node_iterator_end_of_stream
                          (librdf_stream_from_node_iterator_next_statement K)
                          librdf_stream_from_node_iterator_finished of
                     (None, allocs2) \<Rightarrow>
                       (case librdf_stream_from_node_iterator_finished
                               (scontext, env\<lparr>env_allocs := allocs2\<rparr>) of
                          Inl f \<Rightarrow> Inl f
                        | Inr (scontext', env') \<Rightarrow> Inr (None, env'))
                   | (Some stream, allocs2) \<Rightarrow>
                       (let env' = env\<lparr>env_allocs := allocs2\<rparr>
                        in Inr (Some (stream\<lparr>context_C := (scontext, env')\<rparr>), env')))))"


text \<open>The statements held in the lookahead slot.\<close>

definition lookahead :: "('c, 'm, 'st) librdf_stream \<Rightarrow> 'st list" where
  "lookahead s = (case next_C s of None \<Rightarrow> [] | Some st \<Rightarrow> [st])"

text \<open>The stream that \<^verbatim>\<open>librdf_new_stream\<close> builds over the list producer.\<close>

definition list_stream :: "'st list \<Rightarrow> ('st list, unit, 'st) librdf_stream" where
  "list_stream xs =
     \<lparr> context_C = xs,
       end_of_stream_C = list_end_of_stream,
       next_statement_C = list_next_statement,
       finished_C = list_finished,
       map_C = None,
       map_context_C = None,
       next_C = None,
       is_end_stream_C = 0 \<rparr>"

text \<open>
  An end test without side effects: it leaves the producer's state as it found it. Being a
  function of that state, it then gives the same answer when asked again.
\<close>

definition side_effect_free :: "('c \<Rightarrow> fault + int \<times> 'c) \<Rightarrow> bool" where
  "side_effect_free end_of_stream \<longleftrightarrow> (\<forall>c e c'. end_of_stream c = Inr (e, c') \<longrightarrow> c' = c)"


text \<open>The selector values of a build in which subject, predicate and object are 1, 2 and 4.\<close>

definition selectors_124 :: statement_selectors where
  "selectors_124 =
     \<lparr> LIBRDF_STATEMENT_SUBJECT = 1, LIBRDF_STATEMENT_PREDICATE = 2,
       LIBRDF_STATEMENT_OBJECT = 4 \<rparr>"

text \<open>An environment in which every allocation succeeds and nothing has been released.\<close>

definition fresh_environment :: "'n environment" where
  "fresh_environment =
     \<lparr> env_allocs = [], env_freed_nodes = [], env_freed_iterators = 0,
       env_freed_contexts = 0 \<rparr>"

text \<open>What one run of the loop appends to the call log.\<close>

definition loop_calls :: "'st call list \<Rightarrow> 'st option \<Rightarrow> bool" where
  "loop_calls new r \<longleftrightarrow>
     pulls new \<le> discards new + 1 \<and> (r \<noteq> None \<longrightarrow> pulls new = discards new + 1)
     \<and> finalizations new = 0 \<and> released_statements new = []"

section \<open>The find-next loop\<close>

text \<open>
  An induction rule for the runs of the loop that return: one case for each way out of the
  loop body, and one for the iteration that discards an element.
\<close>

lemma loop_induct [consumes 1, case_names ended exhausted found discarded]:
  assumes run: "librdf_stream_get_next_mapped_statement s log = Some (Inr (r, s', log'))"
    and ended: "\<And>s log e ca.
        end_of_stream_C s (context_C s) = Inr (e, ca) \<Longrightarrow> e \<noteq> 0
        \<Longrightarrow> P s log None (s\<lparr>context_C := ca\<rparr>) (log @ [Call_end_of_stream])"
    and exhausted: "\<And>s log ca cb.
        end_of_stream_C s (context_C s) = Inr (0, ca) \<Longrightarrow> next_statement_C s ca = Inr (None, cb)
        \<Longrightarrow> P s log None (s\<lparr>context_C := cb\<rparr>) (log @ [Call_end_of_stream, Call_next_statement])"
    and found: "\<And>s log ca cb st m st'.
        end_of_stream_C s (context_C s) = Inr (0, ca) \<Longrightarrow> next_statement_C s ca = Inr (Some st, cb)
        \<Longrightarrow> map_C s = Some m \<Longrightarrow> m (map_context_C s) st = Some st'
        \<Longrightarrow> P s log (Some st') (s\<lparr>context_C := cb\<rparr>)
              (log @ [Call_end_of_stream, Call_next_statement, Call_map st (Some st')])"
    and discarded: "\<And>s log ca cb st m r s' log'.
        end_of_stream_C s (context_C s) = Inr (0, ca) \<Longrightarrow> next_statement_C s ca = Inr (Some st, cb)
        \<Longrightarrow> map_C s = Some m \<Longrightarrow> m (map_context_C s) st = None
        \<Longrightarrow> P (s\<lparr>context_C := cb\<rparr>)
              (log @ [Call_end_of_stream, Call_next_statement, Call_map st None]) r s' log'
        \<Longrightarrow> P s log r s' log'"
  shows "P s log r s' log'"
proof -
  define Q where "Q = (\<lambda>s log (y :: fault + _). \<forall>r s' log'. y = Inr (r, s', log') \<longrightarrow> P s log r s' log')"
  have step: "Q s log y"
    if 1: "\<And>s log y. loop s log = Some y \<Longrightarrow> Q s log y"
      "(case end_of_stream_C s (context_C s) of
        Inl f \<Rightarrow> Some (Inl f)
      | Inr (e, c1) \<Rightarrow>
          (if e \<noteq> 0 then
             Some (Inr (None, s\<lparr>context_C := c1\<rparr>, log @ [Call_end_of_stream]))
           else
             (case next_statement_C s c1 of
                Inl f \<Rightarrow> Some (Inl f)
              | Inr (None, c2) \<Rightarrow>
                  Some (Inr (None, s\<lparr>context_C := c2\<rparr>,
                             log @ [Call_end_of_stream, Call_next_statement]))
              | Inr (Some st, c2) \<Rightarrow>
                  (case map_C s of
                     None \<Rightarrow> Some (Inl Null_Dereference)
                   | Some m \<Rightarrow>
                       (case m (map_context_C s) st of
                          Some st' \<Rightarrow>
                            Some (Inr (Some st', s\<lparr>context_C := c2\<rparr>,
                                       log @ [Call_end_of_stream, Call_next_statement,
                                              Call_map st (Some st')]))
                        | None \<Rightarrow>
                            loop (s\<lparr>context_C := c2\<rparr>)
                              (log @ [Call_end_of_stream, Call_next_statement,
                                      Call_map st None])))))) = Some y"
    for loop s log y
    unfolding Q_def
    proof (intro allI impI)
      fix r s' log'
      assume y: "y = Inr (r, s', log')"
      show "P s log r s' log'"
      proof (cases "end_of_stream_C s (context_C s)")
        case (Inl f)
        with 1(2) y show ?thesis by simp
      next
        case (Inr ec)
        obtain e c1 where ec: "ec = (e, c1)" by (cases ec)
        show ?thesis
        proof (cases "e = 0")
          case False
          with 1(2) y Inr ec ended show ?thesis by auto
        next
          case True
          note e0 = True
          show ?thesis
          proof (cases "next_statement_C s c1")
            case (Inl f)
            with 1(2) y Inr ec e0 show ?thesis by simp
          next
            case nx: (Inr rc)
            obtain ro c2 where rc: "rc = (ro, c2)" by (cases rc)
            show ?thesis
            proof (cases ro)
              case None
              with 1(2) y Inr ec e0 nx rc exhausted show ?thesis by auto
            next
              case (Some st)
              note st = Some
              show ?thesis
              proof (cases "map_C s")
                case None
                with 1(2) y Inr ec e0 nx rc st show ?thesis by simp
              next
                case (Some m)
                note m = Some
                show ?thesis
                proof (cases "m (map_context_C s) st")
                  case None
                  with 1(2) y Inr ec e0 nx rc st m
                  have "loop (s\<lparr>context_C := c2\<rparr>)
                          (log @ [Call_end_of_stream, Call_next_statement, Call_map st None])
                        = Some (Inr (r, s', log'))" by simp
                  from 1(1) [OF this, unfolded Q_def] have "P (s\<lparr>context_C := c2\<rparr>)
                      (log @ [Call_end_of_stream, Call_next_statement, Call_map st None]) r s' log'"
                    by simp
                  with discarded Inr ec e0 nx rc st m None
                  show ?thesis by simp
                next
                  case (Some st')
                  from 1(2) y Inr ec e0 nx rc st m Some
                  have "r = Some st' \<and> s' = s\<lparr>context_C := c2\<rparr>
                        \<and> log' = log @ [Call_end_of_stream, Call_next_statement,
                                          Call_map st (Some st')]"
                    by auto
                  moreover from Inr ec e0 nx rc st m Some
                  have "P s log (Some st') (s\<lparr>context_C := c2\<rparr>)
                          (log @ [Call_end_of_stream, Call_next_statement,
                                  Call_map st (Some st')])"
                    by - (rule found [where m = m and ca = c1], simp_all)
                  ultimately show ?thesis by simp
                qed
              qed
            qed
          qed
        qed
      qed
    qed
  have "Q s log (Inr (r, s', log'))"
    by (rule librdf_stream_get_next_mapped_statement.raw_induct [where P = Q, OF _ run])
       (rule step, assumption+)
  then show ?thesis by (simp add: Q_def)
qed

lemma loop_frame:
  "librdf_stream_get_next_mapped_statement s log = Some (Inr (r, s', log'))
   \<Longrightarrow> \<exists>c'. s' = s\<lparr>context_C := c'\<rparr>"
proof (induction rule: loop_induct)
  case (discarded s log c1 c2 st m r s' log')
  then show ?case by auto
qed auto



lemma pulls_simps [simp]:
  "pulls [] = 0" "pulls (a @ b) = pulls a + pulls b"
  "pulls (Call_next_statement # b) = Suc (pulls b)"
  "pulls (Call_end_of_stream # b) = pulls b"
  "pulls (Call_map st r # b) = pulls b"
  "pulls (Call_finished # b) = pulls b"
  "pulls (Call_free_statement st # b) = pulls b"
  "pulls (Call_free_stream # b) = pulls b"
  by (simp_all add: pulls_def)

lemma discards_simps [simp]:
  "discards [] = 0" "discards (a @ b) = discards a + discards b"
  "discards (Call_next_statement # b) = discards b"
  "discards (Call_end_of_stream # b) = discards b"
  "discards (Call_map st None # b) = Suc (discards b)"
  "discards (Call_map st (Some st') # b) = discards b"
  by (simp_all add: discards_def)

lemma finalizations_simps [simp]:
  "finalizations [] = 0" "finalizations (a @ b) = finalizations a + finalizations b"
  "finalizations (Call_next_statement # b) = finalizations b"
  "finalizations (Call_end_of_stream # b) = finalizations b"
  "finalizations (Call_map st r # b) = finalizations b"
  "finalizations (Call_finished # b) = Suc (finalizations b)"
  "finalizations (Call_free_statement st # b) = finalizations b"
  "finalizations (Call_free_stream # b) = finalizations b"
  by (simp_all add: finalizations_def)

lemma released_statements_append [simp]:
  "released_statements (a @ b) = released_statements a @ released_statements b"
  by (induction a rule: released_statements.induct) simp_all

lemma loop_log:
  "librdf_stream_get_next_mapped_statement s log = Some (Inr (r, s', log'))
   \<Longrightarrow> \<exists>new. log' = log @ new \<and> loop_calls new r"
proof (induction rule: loop_induct)
  case (ended s log e ca)
  show ?case by (simp add: loop_calls_def)
next
  case (exhausted s log ca cb)
  show ?case by (simp add: loop_calls_def)
next
  case (found s log ca cb st m st')
  show ?case by (simp add: loop_calls_def)
next
  case (discarded s log ca cb st m r s' log')
  then obtain new where
    "log' = (log @ [Call_end_of_stream, Call_next_statement, Call_map st None]) @ new"
    "loop_calls new r" by blast
  then have "log' = log @ ([Call_end_of_stream, Call_next_statement, Call_map st None] @ new)
      \<and> loop_calls ([Call_end_of_stream, Call_next_statement, Call_map st None] @ new) r"
    by (simp add: loop_calls_def)
  then show ?case by blast
qed

section \<open>Streams over a producer that obeys the contract\<close>

lemma contract_end:
  assumes "producer_contract I elems eos nxt" "I c"
  obtains e c' where "eos c = Inr (e, c')" "I c'" "elems c' = elems c" "(e \<noteq> 0) = (elems c = [])"
  using assms unfolding producer_contract_def by blast

lemma contract_next:
  assumes "producer_contract I elems eos nxt" "I c"
  obtains r c' where "nxt c = Inr (r, c')" "I c'"
    "r = (case elems c of [] \<Rightarrow> None | x # _ \<Rightarrow> Some x)" "elems c' = tl (elems c)"
  using assms unfolding producer_contract_def by blast

lemma loop_contract:
  assumes pc: "producer_contract I elems (end_of_stream_C s) (next_statement_C s)"
    and inv: "I (context_C s)"
    and m: "map_C s = Some m"
  shows "\<exists>c' log'.
           librdf_stream_get_next_mapped_statement s log
             = Some (Inr (case List.map_filter (m (map_context_C s)) (elems (context_C s)) of
                            [] \<Rightarrow> None | y # _ \<Rightarrow> Some y,
                          s\<lparr>context_C := c'\<rparr>, log'))
           \<and> I c'
           \<and> List.map_filter (m (map_context_C s)) (elems c')
               = tl (List.map_filter (m (map_context_C s)) (elems (context_C s)))
           \<and> (List.map_filter (m (map_context_C s)) (elems (context_C s)) = []
                \<longrightarrow> elems c' = [])"
  using pc inv m
proof (induction "elems (context_C s)" arbitrary: s log)
  case Nil
  from contract_end [OF Nil(2,3)] obtain e c' where
    e: "end_of_stream_C s (context_C s) = Inr (e, c')" "I c'" "elems c' = elems (context_C s)"
      "(e \<noteq> 0) = (elems (context_C s) = [])" by blast
  with Nil(1) have "e \<noteq> 0" by simp
  with e Nil(1) [symmetric] show ?case
    by (subst librdf_stream_get_next_mapped_statement.simps)
       (auto simp: List.map_filter_simps intro!: exI [of _ c'])
next
  case (Cons x xs)
  from contract_end [OF Cons(3,4)] obtain e c1 where
    e: "end_of_stream_C s (context_C s) = Inr (e, c1)" "I c1" "elems c1 = elems (context_C s)"
      "(e \<noteq> 0) = (elems (context_C s) = [])" by blast
  with Cons(2) [symmetric] have e0: "e = 0" by simp
  from contract_next [OF Cons(3) e(2)] obtain r c2 where
    n: "next_statement_C s c1 = Inr (r, c2)" "I c2"
      "r = (case elems c1 of [] \<Rightarrow> None | x # _ \<Rightarrow> Some x)" "elems c2 = tl (elems c1)"
    by blast
  have xs: "elems (context_C s) = x # xs" using Cons(2) by simp
  from n e have r: "r = Some x" and c2: "elems c2 = xs" by (simp_all add: xs)
  show ?case
  proof (cases "m (map_context_C s) x")
    case (Some y)
    with e(1,2) e0 n(1,2) r c2 Cons(5) show ?thesis
      by (subst librdf_stream_get_next_mapped_statement.simps)
         (auto simp: List.map_filter_simps xs intro!: exI [of _ c2])
  next
    case None
    let ?s = "s\<lparr>context_C := c2\<rparr>"
    have "xs = elems (context_C ?s)" using c2 by simp
    from Cons(1) [OF this, of "log @ [Call_end_of_stream, Call_next_statement, Call_map x None]"]
      Cons(3,5) n(2)
    obtain c' log' where
      "librdf_stream_get_next_mapped_statement ?s
           (log @ [Call_end_of_stream, Call_next_statement, Call_map x None])
         = Some (Inr (case List.map_filter (m (map_context_C s)) xs of
                        [] \<Rightarrow> None | y # _ \<Rightarrow> Some y,
                      s\<lparr>context_C := c'\<rparr>, log'))"
      "I c'"
      "List.map_filter (m (map_context_C s)) (elems c') = tl (List.map_filter (m (map_context_C s)) xs)"
      "List.map_filter (m (map_context_C s)) xs = [] \<longrightarrow> elems c' = []"
      by (auto simp: c2)
    with e(1) e0 n(1) r None Cons(5) show ?thesis
      by (subst librdf_stream_get_next_mapped_statement.simps)
         (auto simp: List.map_filter_simps xs intro!: exI [of _ c'])
  qed
qed



lemma next_pending:
  assumes pc: "producer_contract I elems (end_of_stream_C s) (next_statement_C s)"
    and inv: "I (context_C s)"
  shows "\<exists>s' log'.
           librdf_stream_next (Some s) log
             = Some (Inr (case pending elems s of [] \<Rightarrow> None | x # _ \<Rightarrow> Some x, Some s', log'))
           \<and> pending elems s' = tl (pending elems s)
           \<and> I (context_C s')
           \<and> end_of_stream_C s' = end_of_stream_C s
           \<and> next_statement_C s' = next_statement_C s
           \<and> map_C s' = map_C s \<and> map_context_C s' = map_context_C s"
proof (cases "is_end_stream_C s \<noteq> 0")
  case True
  with inv show ?thesis by (simp add: librdf_stream_next_def pending_def)
next
  case live: False
  show ?thesis
  proof (cases "map_C s")
    case None
    from contract_next [OF pc inv] obtain r c' where
      "next_statement_C s (context_C s) = Inr (r, c')" "I c'"
      "r = (case elems (context_C s) of [] \<Rightarrow> None | x # _ \<Rightarrow> Some x)"
      "elems c' = tl (elems (context_C s))" by blast
    with live None show ?thesis by (simp add: librdf_stream_next_def pending_def)
  next
    case (Some m)
    show ?thesis
    proof (cases "next_C s")
      case (Some st)
      with live \<open>map_C s = Some m\<close> inv show ?thesis
        by (simp add: librdf_stream_next_def pending_def)
    next
      case None
      from loop_contract [OF pc inv \<open>map_C s = Some m\<close>, of log] obtain c' log' where
        l: "librdf_stream_get_next_mapped_statement s log
             = Some (Inr (case List.map_filter (m (map_context_C s)) (elems (context_C s)) of
                            [] \<Rightarrow> None | y # _ \<Rightarrow> Some y,
                          s\<lparr>context_C := c'\<rparr>, log'))"
          "I c'"
          "List.map_filter (m (map_context_C s)) (elems c')
               = tl (List.map_filter (m (map_context_C s)) (elems (context_C s)))"
        by blast
      show ?thesis
      proof (cases "List.map_filter (m (map_context_C s)) (elems (context_C s))")
        case Nil
        with l live None \<open>map_C s = Some m\<close> show ?thesis
          by (simp add: librdf_stream_next_def pending_def)
      next
        case (Cons y ys)
        with l live None \<open>map_C s = Some m\<close> show ?thesis
          by (simp add: librdf_stream_next_def pending_def)
      qed
    qed
  qed
qed

lemma end_pending:
  assumes pc: "producer_contract I elems (end_of_stream_C s) (next_statement_C s)"
    and inv: "I (context_C s)"
  shows "\<exists>e s' log'.
           librdf_stream_end (Some s) log = Some (Inr (e, Some s', log'))
           \<and> (e \<noteq> 0) = (pending elems s = [])
           \<and> pending elems s' = pending elems s
           \<and> I (context_C s')
           \<and> end_of_stream_C s' = end_of_stream_C s
           \<and> next_statement_C s' = next_statement_C s
           \<and> map_C s' = map_C s \<and> map_context_C s' = map_context_C s"
proof (cases "is_end_stream_C s \<noteq> 0")
  case True
  with inv show ?thesis by (simp add: librdf_stream_end_def pending_def)
next
  case live: False
  show ?thesis
  proof (cases "map_C s")
    case None
    from contract_end [OF pc inv] obtain e c' where
      "end_of_stream_C s (context_C s) = Inr (e, c')" "I c'"
      "elems c' = elems (context_C s)" "(e \<noteq> 0) = (elems (context_C s) = [])" by blast
    with live None show ?thesis by (auto simp add: librdf_stream_end_def pending_def)
  next
    case (Some m)
    show ?thesis
    proof (cases "next_C s")
      case (Some st)
      with live \<open>map_C s = Some m\<close> inv show ?thesis
        by (simp add: librdf_stream_end_def pending_def)
    next
      case None
      from loop_contract [OF pc inv \<open>map_C s = Some m\<close>, of log] obtain c' log' where
        l: "librdf_stream_get_next_mapped_statement s log
             = Some (Inr (case List.map_filter (m (map_context_C s)) (elems (context_C s)) of
                            [] \<Rightarrow> None | y # _ \<Rightarrow> Some y,
                          s\<lparr>context_C := c'\<rparr>, log'))"
          "I c'"
          "List.map_filter (m (map_context_C s)) (elems c')
               = tl (List.map_filter (m (map_context_C s)) (elems (context_C s)))"
        by blast
      show ?thesis
      proof (cases "List.map_filter (m (map_context_C s)) (elems (context_C s))")
        case Nil
        with l live None \<open>map_C s = Some m\<close> show ?thesis
          by (simp add: librdf_stream_end_def pending_def)
      next
        case (Cons y ys)
        with l live None \<open>map_C s = Some m\<close> show ?thesis
          by (simp add: librdf_stream_end_def pending_def)
      qed
    qed
  qed
qed

lemma take_pad: "n \<le> k \<Longrightarrow> take n (ys @ replicate k v) = take n (ys @ replicate n v)"
  by (auto simp: min_def)

lemma expected_replies_0 [simp]: "expected_replies 0 sts = []"
  by (simp add: expected_replies_def)

lemma expected_replies_Suc:
  "expected_replies (Suc n) sts
     = (case sts of [] \<Rightarrow> None | x # _ \<Rightarrow> Some x) # expected_replies n (tl sts)"
proof (cases sts)
  case Nil
  then show ?thesis by (simp add: expected_replies_def)
next
  case (Cons x xs)
  have "take n (map Some xs @ replicate (Suc n) None) = take n (map Some xs @ replicate n None)"
    by (rule take_pad) simp
  with Cons show ?thesis by (simp add: expected_replies_def del: replicate_Suc)
qed

lemma consume_pending:
  assumes "producer_contract I elems (end_of_stream_C s) (next_statement_C s)"
    and "I (context_C s)"
    and "list_all (\<lambda>r. \<not> is_set_map r) reqs"
  shows "\<exists>reps s' log'.
           consume reqs (Some s) log = Some (Inr (reps, Some s', log'))
           \<and> next_replies reps
               = expected_replies (next_requests reqs) (pending elems s)"
  using assms
proof (induction reqs arbitrary: s log)
  case Nil
  show ?case by simp
next
  case (Cons q reqs)
  show ?case
  proof (cases q)
    case Do_end
    from end_pending [OF Cons(2,3), of log] obtain e s1 log1 where
      e: "librdf_stream_end (Some s) log = Some (Inr (e, Some s1, log1))"
        "pending elems s1 = pending elems s" "I (context_C s1)"
        "end_of_stream_C s1 = end_of_stream_C s" "next_statement_C s1 = next_statement_C s"
      by blast
    from Cons(1) [of s1 log1] e Cons(2,4) obtain reps s' log' where
      "consume reqs (Some s1) log1 = Some (Inr (reps, Some s', log'))"
      "next_replies reps
               = expected_replies (next_requests reqs) (pending elems s1)"
      by auto
    with e Do_end show ?thesis by simp
  next
    case Do_next
    from next_pending [OF Cons(2,3), of log] obtain s1 log1 where
      e: "librdf_stream_next (Some s) log
             = Some (Inr (case pending elems s of [] \<Rightarrow> None | x # _ \<Rightarrow> Some x, Some s1, log1))"
        "pending elems s1 = tl (pending elems s)" "I (context_C s1)"
        "end_of_stream_C s1 = end_of_stream_C s" "next_statement_C s1 = next_statement_C s"
      by blast
    from Cons(1) [of s1 log1] e Cons(2,4) obtain reps s' log' where
      "consume reqs (Some s1) log1 = Some (Inr (reps, Some s', log'))"
      "next_replies reps
               = expected_replies (next_requests reqs) (pending elems s1)"
      by auto
    with e Do_next show ?thesis
      by (simp add: expected_replies_Suc)
  next
    case (Do_set_map f fc)
    with Cons(4) show ?thesis by simp
  qed
qed


lemmas list_producer_defs =
  list_stream_def list_end_of_stream_def list_next_statement_def list_finished_def odd_only_def

lemma list_producer_contract:
  "producer_contract (\<lambda>c. True) (\<lambda>c. c) list_end_of_stream list_next_statement"
  by (auto simp: producer_contract_def list_end_of_stream_def list_next_statement_def
           split: list.splits)

lemma map_filter_accepts:
  "list_all (\<lambda>x. f x = None \<or> f x = Some x) xs
   \<Longrightarrow> List.map_filter f xs = filter (\<lambda>x. f x \<noteq> None) xs"
  by (induction xs) (auto simp: List.map_filter_simps)

text \<open>
  Claim C1. Take a producer that obeys the three-operation contract, a stream created over
  it, with or without a map installed before the first request, and any sequence of end and
  next requests. Every request returns, and the replies to the next requests are the
  producer's elements in producer order, each once, followed by absent for every further
  next request. With a map installed they are the elements the map lets through, as the map
  returns them; when the map returns the elements it accepts unchanged, they are exactly
  the producer's elements that the map accepts.
\<close>

theorem stream_next_sequence:
  assumes "producer_contract I elems end_of_stream next_statement"
    and "I context"
    and "librdf_new_stream allocs world context end_of_stream next_statement finished
           = (Some s, allocs')"
    and "list_all (\<lambda>r. \<not> is_set_map r) reqs"
  shows "\<exists>reps s' log'.
           consume ((case installed of None \<Rightarrow> [] | Some (m, mc) \<Rightarrow> [Do_set_map (Some m) mc]) @ reqs)
             (Some s) [] = Some (Inr (reps, Some s', log'))
           \<and> next_replies reps
               = expected_replies (next_requests reqs)
                   (case installed of
                      None \<Rightarrow> elems context
                    | Some (m, mc) \<Rightarrow> List.map_filter (m mc) (elems context))
           \<and> (case installed of
                None \<Rightarrow> True
              | Some (m, mc) \<Rightarrow>
                  list_all (\<lambda>x. m mc x = None \<or> m mc x = Some x) (elems context) \<longrightarrow>
                    next_replies reps
                      = expected_replies (next_requests reqs)
                          (filter (\<lambda>x. m mc x \<noteq> None) (elems context)))"
proof -
  from assms(3) have s: "s = \<lparr> context_C = context, end_of_stream_C = end_of_stream,
      next_statement_C = next_statement, finished_C = finished, map_C = None,
      map_context_C = None, next_C = None, is_end_stream_C = 0 \<rparr>"
    by (auto simp: librdf_new_stream_def split: prod.splits bool.splits)
  show ?thesis
  proof (cases installed)
    case None
    from assms(1,2) s
    have "producer_contract I elems (end_of_stream_C s) (next_statement_C s)" "I (context_C s)"
      by simp_all
    from consume_pending [OF this assms(4), of "[]"] None s show ?thesis
      by (simp add: pending_def)
  next
    case (Some p)
    obtain m mc where p: "p = (m, mc)" by (cases p)
    let ?s = "s\<lparr>map_C := Some m, map_context_C := mc\<rparr>"
    from assms(1,2) s
    have "producer_contract I elems (end_of_stream_C ?s) (next_statement_C ?s)" "I (context_C ?s)"
      by simp_all
    from consume_pending [OF this assms(4), of "[]"] obtain reps s' log' where
      "consume reqs (Some ?s) [] = Some (Inr (reps, Some s', log'))"
      "next_replies reps = expected_replies (next_requests reqs) (pending elems ?s)"
      by blast
    with Some p s show ?thesis
      by (auto simp: pending_def librdf_stream_set_map_def map_filter_accepts)
  qed
qed

theorem stream_next_sequence_witness:
  "producer_contract (\<lambda>c. True) (\<lambda>c. c) list_end_of_stream
       (list_next_statement :: nat list \<Rightarrow> fault + nat option \<times> nat list)
   \<and> list_all (\<lambda>r. \<not> is_set_map r)
         [Do_end, Do_next, Do_end, Do_end, Do_next, Do_next, Do_end, Do_next
            :: (unit, nat) request]
   \<and> (\<exists>s. librdf_new_stream [] () [1, 2, 3, 4 :: nat] list_end_of_stream list_next_statement
              list_finished = (Some s, [])
        \<and> (\<exists>reps s' log'.
              consume (Do_set_map (Some odd_only) None
                       # [Do_end, Do_next, Do_end, Do_end, Do_next, Do_next, Do_end, Do_next])
                (Some s) [] = Some (Inr (reps, Some s', log'))
              \<and> next_replies reps = [Some 1, Some 3, None, None]
              \<and> next_replies reps
                  = map Some (filter (\<lambda>x. odd_only None x \<noteq> None) [1, 2, 3, 4])
                    @ [None, None]))"
proof -
  have c: "producer_contract (\<lambda>c. True) (\<lambda>c. c) list_end_of_stream
       (list_next_statement :: nat list \<Rightarrow> fault + nat option \<times> nat list)"
    by (rule list_producer_contract)
  have r: "list_all (\<lambda>r. \<not> is_set_map r)
         [Do_end, Do_next, Do_end, Do_end, Do_next, Do_next, Do_end, Do_next
            :: (unit, nat) request]"
    by simp
  obtain s :: "(nat list, unit, nat) librdf_stream" where
    s: "librdf_new_stream [] () [1, 2, 3, 4 :: nat] list_end_of_stream list_next_statement
              list_finished = (Some s, [])"
    by (simp add: librdf_new_stream_def LIBRDF_CALLOC_def)
  from stream_next_sequence [OF c _ s r, of "Some (odd_only, None)"] c r s
  show ?thesis
    by (simp add: expected_replies_def List.map_filter_simps odd_only_def)
qed

section \<open>Any run of requests\<close>

lemma end_cases:
  assumes "librdf_stream_end (Some s) log = Some (Inr (e, stream', log'))"
  obtains (ended) "is_end_stream_C s \<noteq> 0" "e = 1" "stream' = Some s" "log' = log"
  | (direct) c where "is_end_stream_C s = 0" "map_C s = None"
      "end_of_stream_C s (context_C s) = Inr (e, c)"
      "stream' = Some (s\<lparr>context_C := c, is_end_stream_C := e\<rparr>)"
      "log' = log @ [Call_end_of_stream]"
  | (buffered) "is_end_stream_C s = 0" "map_C s \<noteq> None" "next_C s \<noteq> None"
      "e = 0" "stream' = Some s" "log' = log"
  | (latched) s1 where "is_end_stream_C s = 0" "map_C s \<noteq> None" "next_C s = None"
      "librdf_stream_get_next_mapped_statement s log = Some (Inr (None, s1, log'))"
      "e = 1" "stream' = Some (s1\<lparr>next_C := None, is_end_stream_C := 1\<rparr>)"
  | (looked_ahead) s1 st where "is_end_stream_C s = 0" "map_C s \<noteq> None" "next_C s = None"
      "librdf_stream_get_next_mapped_statement s log = Some (Inr (Some st, s1, log'))"
      "e = 0" "stream' = Some (s1\<lparr>next_C := Some st\<rparr>)"
proof (cases "is_end_stream_C s \<noteq> 0")
  case True
  with assms ended show ?thesis by (simp add: librdf_stream_end_def)
next
  case live: False
  show ?thesis
  proof (cases "map_C s = None")
    case True
    with assms live direct show ?thesis
      by (auto simp: librdf_stream_end_def split: sum.splits)
  next
    case m: False
    show ?thesis
    proof (cases "next_C s")
      case (Some st)
      with assms live m buffered show ?thesis by (simp add: librdf_stream_end_def)
    next
      case None
      from assms live m None obtain r s1 where
        l: "librdf_stream_get_next_mapped_statement s log = Some (Inr (r, s1, log'))"
        by (auto simp: librdf_stream_end_def split: option.splits sum.splits)
      from loop_frame [OF l] live have z: "is_end_stream_C s1 = 0" by auto
      show ?thesis
      proof (cases r)
        case None
        with assms live m \<open>next_C s = None\<close> l latched show ?thesis
          by (simp add: librdf_stream_end_def)
      next
        case (Some st)
        with assms live m \<open>next_C s = None\<close> l z looked_ahead show ?thesis
          by (simp add: librdf_stream_end_def)
      qed
    qed
  qed
qed

lemma next_cases:
  assumes "librdf_stream_next (Some s) log = Some (Inr (r, stream', log'))"
  obtains (ended) "is_end_stream_C s \<noteq> 0" "r = None" "stream' = Some s" "log' = log"
  | (direct) c where "is_end_stream_C s = 0" "map_C s = None"
      "next_statement_C s (context_C s) = Inr (r, c)"
      "stream' = Some (s\<lparr>context_C := c\<rparr>)"
      "log' = log @ [Call_next_statement]"
  | (buffered) st where "is_end_stream_C s = 0" "map_C s \<noteq> None" "next_C s = Some st"
      "r = Some st" "stream' = Some (s\<lparr>next_C := None\<rparr>)" "log' = log"
  | (latched) s1 where "is_end_stream_C s = 0" "map_C s \<noteq> None" "next_C s = None"
      "librdf_stream_get_next_mapped_statement s log = Some (Inr (None, s1, log'))"
      "r = None" "stream' = Some (s1\<lparr>is_end_stream_C := 1\<rparr>)"
  | (found) s1 st where "is_end_stream_C s = 0" "map_C s \<noteq> None" "next_C s = None"
      "librdf_stream_get_next_mapped_statement s log = Some (Inr (Some st, s1, log'))"
      "r = Some st" "stream' = Some s1"
proof (cases "is_end_stream_C s \<noteq> 0")
  case True
  with assms ended show ?thesis by (simp add: librdf_stream_next_def)
next
  case live: False
  show ?thesis
  proof (cases "map_C s = None")
    case True
    with assms live direct show ?thesis
      by (auto simp: librdf_stream_next_def split: sum.splits)
  next
    case m: False
    show ?thesis
    proof (cases "next_C s")
      case (Some st)
      with assms live m have "r = Some st" "stream' = Some (s\<lparr>next_C := None\<rparr>)" "log' = log"
        by (simp_all add: librdf_stream_next_def)
      with live m Some show ?thesis by (intro buffered [of st]) simp_all
    next
      case None
      from assms live m None obtain r1 s1 where
        l: "librdf_stream_get_next_mapped_statement s log = Some (Inr (r1, s1, log'))"
        by (auto simp: librdf_stream_next_def split: option.splits sum.splits)
      show ?thesis
      proof (cases r1)
        case None
        with assms live m \<open>next_C s = None\<close> l latched show ?thesis
          by (simp add: librdf_stream_next_def)
      next
        case (Some st)
        with assms live m \<open>next_C s = None\<close> l found show ?thesis
          by (auto simp: librdf_stream_next_def)
      qed
    qed
  qed
qed

lemma perform_step:
  assumes "perform q (Some s) log = Some (Inr (a, stream', log'))"
  shows "\<exists>s' new. stream' = Some s' \<and> log' = log @ new
           \<and> finalizations new = 0 \<and> released_statements new = []
           \<and> (is_end_stream_C s \<noteq> 0 \<longrightarrow> is_end_stream_C s' \<noteq> 0)"
proof (cases q)
  case Do_end
  with assms obtain e where e: "librdf_stream_end (Some s) log = Some (Inr (e, stream', log'))"
    by (auto split: option.splits sum.splits)
  then show ?thesis
  proof (cases rule: end_cases)
    case (latched s1)
    from loop_log [OF latched(4)] latched show ?thesis by (auto simp: loop_calls_def)
  next
    case (looked_ahead s1 st)
    from loop_log [OF looked_ahead(4)] looked_ahead show ?thesis by (auto simp: loop_calls_def)
  qed auto
next
  case Do_next
  with assms obtain r where e: "librdf_stream_next (Some s) log = Some (Inr (r, stream', log'))"
    by (auto split: option.splits sum.splits)
  then show ?thesis
  proof (cases rule: next_cases)
    case (latched s1)
    from loop_log [OF latched(4)] latched show ?thesis by (auto simp: loop_calls_def)
  next
    case (found s1 st)
    from loop_log [OF found(4)] found show ?thesis by (auto simp: loop_calls_def)
  qed auto
next
  case (Do_set_map f fc)
  with assms show ?thesis by (auto simp: librdf_stream_set_map_def)
qed

lemma consume_run:
  assumes "consume reqs (Some s) log = Some (Inr (reps, stream', log'))"
  shows "\<exists>s' new. stream' = Some s' \<and> log' = log @ new
           \<and> finalizations new = 0 \<and> released_statements new = []
           \<and> (is_end_stream_C s \<noteq> 0 \<longrightarrow> is_end_stream_C s' \<noteq> 0)"
  using assms
proof (induction reqs arbitrary: s log reps)
  case Nil
  then show ?case by auto
next
  case (Cons q reqs)
  from Cons(2) obtain a stream1 log1 reps1 where
    p: "perform q (Some s) log = Some (Inr (a, stream1, log1))"
    and c: "consume reqs stream1 log1 = Some (Inr (reps1, stream', log'))"
    by (auto split: option.splits sum.splits)
  from perform_step [OF p] obtain s1 new1 where
    s1: "stream1 = Some s1" "log1 = log @ new1" "finalizations new1 = 0"
      "released_statements new1 = []" "is_end_stream_C s \<noteq> 0 \<longrightarrow> is_end_stream_C s1 \<noteq> 0"
    by blast
  from Cons(1) [of s1 log1 reps1] c s1(1) obtain s' new where
    s': "stream' = Some s'" "log' = log1 @ new" "finalizations new = 0"
      "released_statements new = []" "is_end_stream_C s1 \<noteq> 0 \<longrightarrow> is_end_stream_C s' \<noteq> 0"
    by blast
  from s1 s' have "stream' = Some s' \<and> log' = log @ (new1 @ new)
      \<and> finalizations (new1 @ new) = 0 \<and> released_statements (new1 @ new) = []
      \<and> (is_end_stream_C s \<noteq> 0 \<longrightarrow> is_end_stream_C s' \<noteq> 0)"
    by simp
  then show ?case by blast
qed


text \<open>
  Claim C2. Whatever end, next and set_map requests are applied to a stream, in any order:
  if the ended flag was set before them it is set after them, and the lookahead slot holds
  at most one statement. As every prefix of a sequence of requests is such a sequence, this
  holds at every point of a run.
\<close>

theorem ended_flag_sticky:
  assumes "consume reqs (Some s) log = Some (Inr (reps, stream', log'))"
  shows "\<exists>s'. stream' = Some s'
           \<and> (is_end_stream_C s \<noteq> 0 \<longrightarrow> is_end_stream_C s' \<noteq> 0)
           \<and> length (lookahead s') \<le> 1"
proof -
  from consume_run [OF assms] obtain s' where
    "stream' = Some s'" "is_end_stream_C s \<noteq> 0 \<longrightarrow> is_end_stream_C s' \<noteq> 0" by blast
  then show ?thesis by (simp add: lookahead_def split: option.splits)
qed

theorem ended_flag_sticky_witness:
  "consume [Do_next, Do_set_map None None, Do_end, Do_next, Do_set_map (Some odd_only) None, Do_end]
     (Some ((list_stream [3 :: nat])\<lparr>map_C := Some odd_only, is_end_stream_C := 1\<rparr>)) []
   = Some (Inr ([Got_next None, Got_set_map, Got_end 1, Got_next None, Got_set_map, Got_end 1],
                Some ((list_stream [3])\<lparr>map_C := Some odd_only, is_end_stream_C := 1\<rparr>), []))
   \<and> is_end_stream_C ((list_stream [3 :: nat])\<lparr>map_C := Some odd_only, is_end_stream_C := 1\<rparr>) \<noteq> 0
   \<and> length (lookahead ((list_stream [3 :: nat])\<lparr>map_C := Some odd_only, is_end_stream_C := 1\<rparr>)) \<le> 1"
proof -
  have run: "consume [Do_next, Do_set_map None None, Do_end, Do_next, Do_set_map (Some odd_only) None, Do_end]
     (Some ((list_stream [3 :: nat])\<lparr>map_C := Some odd_only, is_end_stream_C := 1\<rparr>)) []
   = Some (Inr ([Got_next None, Got_set_map, Got_end 1, Got_next None, Got_set_map, Got_end 1],
                Some ((list_stream [3])\<lparr>map_C := Some odd_only, is_end_stream_C := 1\<rparr>), []))"
    by (simp add: librdf_stream_next_def librdf_stream_end_def librdf_stream_set_map_def
          list_stream_def)
  from ended_flag_sticky [OF run] run show ?thesis by simp
qed

text \<open>
  Claim C5. Whatever was consumed before (nothing, some elements, all of them), when the
  producer's finalizer returns, destroying the stream returns too: it calls the finalizer
  once, on the producer context, and that is the only such call of the stream's life; it
  releases the statement held in the lookahead slot when there is one, and no statement
  otherwise; and it releases the stream.
\<close>

theorem destroy_finalizes_once:
  assumes "consume reqs (Some s0) log0 = Some (Inr (reps, Some s, log))"
    and "finished_C s (context_C s) = Inr c"
  shows "\<exists>log'.
           librdf_free_stream (Some s) log = Inr (c, log')
           \<and> log' = log @ Call_finished # map Call_free_statement (lookahead s)
                        @ [Call_free_stream]
           \<and> finalizations log' = finalizations log0 + 1
           \<and> released_statements log' = released_statements log0 @ lookahead s"
proof -
  from consume_run [OF assms(1)] obtain new where
    new: "log = log0 @ new" "finalizations new = 0" "released_statements new = []" by blast
  from assms(2) have
    "librdf_free_stream (Some s) log
       = Inr (c, log @ Call_finished # map Call_free_statement (lookahead s)
                   @ [Call_free_stream])"
    by (simp add: librdf_free_stream_def lookahead_def Let_def split: option.splits)
  with new show ?thesis
    by (auto simp: lookahead_def split: option.splits)
qed

theorem destroy_finalizes_once_witness:
  "consume [] (Some (list_stream [2, 4, 1 :: nat])) []
     = Some (Inr ([], Some (list_stream [2, 4, 1]), []))
   \<and> finished_C (list_stream [2, 4, 1 :: nat]) (context_C (list_stream [2, 4, 1 :: nat]))
       = Inr [2, 4, 1]
   \<and> librdf_free_stream (Some (list_stream [2, 4, 1 :: nat])) []
       = Inr ([2, 4, 1], [Call_finished, Call_free_stream])
   \<and> consume [Do_set_map (Some odd_only) None, Do_end] (Some (list_stream [2, 4, 1 :: nat])) []
       = Some (Inr ([Got_set_map, Got_end 0],
            Some ((list_stream [])\<lparr>map_C := Some odd_only, next_C := Some 1\<rparr>),
            [Call_end_of_stream, Call_next_statement, Call_map 2 None,
             Call_end_of_stream, Call_next_statement, Call_map 4 None,
             Call_end_of_stream, Call_next_statement, Call_map 1 (Some 1)]))
   \<and> librdf_free_stream (Some ((list_stream [])\<lparr>map_C := Some odd_only, next_C := Some 1\<rparr>))
        [Call_end_of_stream, Call_next_statement, Call_map 2 None,
         Call_end_of_stream, Call_next_statement, Call_map 4 None,
         Call_end_of_stream, Call_next_statement, Call_map 1 (Some 1)]
       = Inr ([],
          [Call_end_of_stream, Call_next_statement, Call_map 2 None,
           Call_end_of_stream, Call_next_statement, Call_map 4 None,
           Call_end_of_stream, Call_next_statement, Call_map 1 (Some 1),
           Call_finished, Call_free_statement 1, Call_free_stream])
   \<and> consume [Do_next, Do_end, Do_next] (Some (list_stream [2 :: nat])) []
       = Some (Inr ([Got_next (Some 2), Got_end 1, Got_next None],
            Some ((list_stream [])\<lparr>is_end_stream_C := 1\<rparr>),
            [Call_next_statement, Call_end_of_stream]))
   \<and> librdf_free_stream (Some ((list_stream ([] :: nat list))\<lparr>is_end_stream_C := 1\<rparr>))
        [Call_next_statement, Call_end_of_stream]
       = Inr ([], [Call_next_statement, Call_end_of_stream, Call_finished, Call_free_stream])
   \<and> finalizations
        [Call_end_of_stream, Call_next_statement, Call_map 2 None,
         Call_end_of_stream, Call_next_statement, Call_map 4 None,
         Call_end_of_stream, Call_next_statement, Call_map 1 (Some (1 :: nat)),
         Call_finished, Call_free_statement 1, Call_free_stream] = 1
   \<and> released_statements
        [Call_end_of_stream, Call_next_statement, Call_map 2 None,
         Call_end_of_stream, Call_next_statement, Call_map 4 None,
         Call_end_of_stream, Call_next_statement, Call_map 1 (Some (1 :: nat)),
         Call_finished, Call_free_statement 1, Call_free_stream] = [1]
   \<and> released_statements
        [Call_next_statement, Call_end_of_stream, Call_finished,
         Call_free_stream :: nat call] = []"
proof -
  let ?log = "[Call_end_of_stream, Call_next_statement, Call_map 2 None,
         Call_end_of_stream, Call_next_statement, Call_map 4 None,
         Call_end_of_stream, Call_next_statement, Call_map 1 (Some (1 :: nat))]"
  let ?s = "(list_stream [])\<lparr>map_C := Some odd_only, next_C := Some (1 :: nat)\<rparr>"
  let ?t = "(list_stream ([] :: nat list))\<lparr>is_end_stream_C := 1\<rparr>"
  have run0: "consume [] (Some (list_stream [2, 4, 1 :: nat])) ([] :: nat call list)
     = Some (Inr ([], Some (list_stream [2, 4, 1]), []))"
    by simp
  have fin0: "finished_C (list_stream [2, 4, 1 :: nat]) (context_C (list_stream [2, 4, 1 :: nat]))
     = Inr [2, 4, 1]"
    by (simp add: list_stream_def list_finished_def)
  have run1: "consume [Do_set_map (Some odd_only) None, Do_end] (Some (list_stream [2, 4, 1 :: nat])) []
     = Some (Inr ([Got_set_map, Got_end 0], Some ?s, ?log))"
    by (simp add: librdf_stream_end_def librdf_stream_set_map_def
          librdf_stream_get_next_mapped_statement.simps list_producer_defs)
  have fin1: "finished_C ?s (context_C ?s) = Inr []"
    by (simp add: list_stream_def list_finished_def)
  have run2: "consume [Do_next, Do_end, Do_next] (Some (list_stream [2 :: nat])) []
     = Some (Inr ([Got_next (Some 2), Got_end 1, Got_next None], Some ?t,
                  [Call_next_statement, Call_end_of_stream]))"
    by (simp add: librdf_stream_end_def librdf_stream_next_def list_producer_defs)
  have fin2: "finished_C ?t (context_C ?t) = Inr []"
    by (simp add: list_stream_def list_finished_def)
  from destroy_finalizes_once [OF run0 fin0] destroy_finalizes_once [OF run1 fin1]
    destroy_finalizes_once [OF run2 fin2] run0 fin0 run1 run2
  show ?thesis
    by (simp add: lookahead_def list_stream_def)
qed

text \<open>
  Claim C9. On a null stream the end operation returns 1, end of stream, and fails in no
  way; the next operation and the destructor dereference the null pointer.
\<close>

theorem null_stream:
  "librdf_stream_end (None :: ('c, 'm, 'st) librdf_stream option) log = Some (Inr (1, None, log))
   \<and> librdf_stream_next (None :: ('c, 'm, 'st) librdf_stream option) log
       = Some (Inl Null_Dereference)
   \<and> librdf_free_stream (None :: ('c, 'm, 'st) librdf_stream option) log
       = Inl Null_Dereference"
  by (simp add: librdf_stream_end_def librdf_stream_next_def librdf_free_stream_def)

text \<open>
  Claim C10. In every state of a stream, set_map returns, and it writes the map function
  and the map context only: the producer context, the three producer operations, the
  lookahead slot and the ended flag are as before, also when a map is replaced while a
  statement is buffered.
\<close>

theorem set_map_frame:
  "\<exists>s'. librdf_stream_set_map (Some s) map_fn map_context = Inr (Some s')
        \<and> map_C s' = map_fn \<and> map_context_C s' = map_context
        \<and> context_C s' = context_C s
        \<and> end_of_stream_C s' = end_of_stream_C s
        \<and> next_statement_C s' = next_statement_C s
        \<and> finished_C s' = finished_C s
        \<and> next_C s' = next_C s
        \<and> is_end_stream_C s' = is_end_stream_C s"
  by (simp add: librdf_stream_set_map_def)

section \<open>The end operation\<close>

text \<open>
  Claim C3. On a stream with a map installed and the ended flag clear: when a statement is
  buffered, end returns 0 and touches neither the stream nor the producer (the call log is
  as before); otherwise it runs the find-next loop, and either stores the statement found in
  the lookahead slot and returns 0, or, when the loop finds nothing, leaves the slot empty,
  sets the ended flag and returns 1. When the loop faults or does not return, so does end.
\<close>

theorem end_with_map:
  assumes "map_C s = Some m" and "is_end_stream_C s = 0"
  shows "(case next_C s of
            Some st \<Rightarrow> librdf_stream_end (Some s) log = Some (Inr (0, Some s, log))
          | None \<Rightarrow>
              (case librdf_stream_get_next_mapped_statement s log of
                 None \<Rightarrow> librdf_stream_end (Some s) log = None
               | Some (Inl f) \<Rightarrow> librdf_stream_end (Some s) log = Some (Inl f)
               | Some (Inr (None, s', log')) \<Rightarrow>
                   librdf_stream_end (Some s) log
                     = Some (Inr (1, Some (s'\<lparr>next_C := None, is_end_stream_C := 1\<rparr>), log'))
                   \<and> next_C s' = None
               | Some (Inr (Some st, s', log')) \<Rightarrow>
                   librdf_stream_end (Some s) log
                     = Some (Inr (0, Some (s'\<lparr>next_C := Some st\<rparr>), log'))
                   \<and> is_end_stream_C s' = 0))"
proof (cases "next_C s")
  case (Some st)
  with assms show ?thesis by (simp add: librdf_stream_end_def)
next
  case None
  show ?thesis
  proof (cases "librdf_stream_get_next_mapped_statement s log")
    case l: None
    with assms None show ?thesis by (simp add: librdf_stream_end_def)
  next
    case l: (Some y)
    show ?thesis
    proof (cases y)
      case (Inl f)
      with assms None l show ?thesis by (simp add: librdf_stream_end_def)
    next
      case (Inr t)
      obtain r s' log' where t: "t = (r, s', log')" by (cases t)
      from loop_frame [of s log r s' log'] l Inr t assms None
      have "is_end_stream_C s' = 0" "next_C s' = None" by auto
      with assms None l Inr t show ?thesis
        by (cases r) (simp_all add: librdf_stream_end_def)
    qed
  qed
qed

theorem end_with_map_witness:
  "map_C ((list_stream [2, 4, 1 :: nat])\<lparr>map_C := Some odd_only\<rparr>) = Some odd_only
   \<and> is_end_stream_C ((list_stream [2, 4, 1 :: nat])\<lparr>map_C := Some odd_only\<rparr>) = 0
   \<and> librdf_stream_end (Some ((list_stream [2, 4, 1 :: nat])\<lparr>map_C := Some odd_only\<rparr>)) []
       = Some (Inr (0, Some ((list_stream [])\<lparr>map_C := Some odd_only, next_C := Some 1\<rparr>),
           [Call_end_of_stream, Call_next_statement, Call_map 2 None,
            Call_end_of_stream, Call_next_statement, Call_map 4 None,
            Call_end_of_stream, Call_next_statement, Call_map 1 (Some 1)]))
   \<and> librdf_stream_end
         (Some ((list_stream [3 :: nat])\<lparr>map_C := Some odd_only, next_C := Some 1\<rparr>)) []
       = Some (Inr (0, Some ((list_stream [3])\<lparr>map_C := Some odd_only, next_C := Some 1\<rparr>), []))
   \<and> librdf_stream_end (Some ((list_stream [2 :: nat])\<lparr>map_C := Some odd_only\<rparr>)) []
       = Some (Inr (1, Some ((list_stream [])\<lparr>map_C := Some odd_only, is_end_stream_C := 1\<rparr>),
           [Call_end_of_stream, Call_next_statement, Call_map 2 None, Call_end_of_stream]))"
proof -
  have l1: "librdf_stream_get_next_mapped_statement
        ((list_stream [2, 4, 1 :: nat])\<lparr>map_C := Some odd_only\<rparr>) []
      = Some (Inr (Some 1, (list_stream [])\<lparr>map_C := Some odd_only\<rparr>,
           [Call_end_of_stream, Call_next_statement, Call_map 2 None,
            Call_end_of_stream, Call_next_statement, Call_map 4 None,
            Call_end_of_stream, Call_next_statement, Call_map 1 (Some 1)]))"
    by (simp add: librdf_stream_get_next_mapped_statement.simps list_producer_defs)
  have l2: "librdf_stream_get_next_mapped_statement
        ((list_stream [2 :: nat])\<lparr>map_C := Some odd_only\<rparr>) []
      = Some (Inr (None, (list_stream [])\<lparr>map_C := Some odd_only\<rparr>,
           [Call_end_of_stream, Call_next_statement, Call_map 2 None, Call_end_of_stream]))"
    by (simp add: librdf_stream_get_next_mapped_statement.simps list_producer_defs)
  from end_with_map [of "(list_stream [2, 4, 1 :: nat])\<lparr>map_C := Some odd_only\<rparr>" odd_only "[]"]
    end_with_map [of "(list_stream [3 :: nat])\<lparr>map_C := Some odd_only, next_C := Some 1\<rparr>"
      odd_only "[]"]
    end_with_map [of "(list_stream [2 :: nat])\<lparr>map_C := Some odd_only\<rparr>" odd_only "[]"]
    l1 l2
  show ?thesis by (simp add: list_stream_def)
qed

text \<open>
  Claim C4, as stated, fails: with a map installed the first of two end calls pulls raw
  elements until the map lets one through. Over the elements 2, 4, 1 and a map that
  discards the even numbers, two end calls in a row pull three raw elements.
\<close>

theorem end_twice_pulls_counterexample:
  "side_effect_free (list_end_of_stream :: nat list \<Rightarrow> fault + int \<times> nat list)
   \<and> consume [Do_end, Do_end] (Some ((list_stream [2, 4, 1 :: nat])\<lparr>map_C := Some odd_only\<rparr>)) []
       = Some (Inr ([Got_end 0, Got_end 0],
           Some ((list_stream [])\<lparr>map_C := Some odd_only, next_C := Some 1\<rparr>),
           [Call_end_of_stream, Call_next_statement, Call_map 2 None,
            Call_end_of_stream, Call_next_statement, Call_map 4 None,
            Call_end_of_stream, Call_next_statement, Call_map 1 (Some 1)]))
   \<and> pulls [Call_end_of_stream, Call_next_statement, Call_map 2 None,
            Call_end_of_stream, Call_next_statement, Call_map 4 None,
            Call_end_of_stream, Call_next_statement, Call_map 1 (Some (1 :: nat))] = 3
   \<and> \<not> (3 :: nat) \<le> 1"
  by (simp add: side_effect_free_def librdf_stream_end_def
        librdf_stream_get_next_mapped_statement.simps list_producer_defs)

text \<open>
  Claim C4, amended. With an end test that has no side effects, and with or without a map:
  of two end calls in a row the second pulls no raw element, leaves the stream as the first
  call left it (nothing is consumed or skipped) and gives the same answer, zero or
  non-zero. The first call pulls no element when no map is installed; with a map it pulls
  at most one element more than the map discards during the call.
\<close>

theorem end_twice:
  assumes "side_effect_free (end_of_stream_C s)"
    and "librdf_stream_end (Some s) log = Some (Inr (e1, stream1, log1))"
  shows "\<exists>s1 e2 log2.
           stream1 = Some s1
           \<and> librdf_stream_end (Some s1) log1 = Some (Inr (e2, Some s1, log2))
           \<and> (e2 \<noteq> 0) = (e1 \<noteq> 0)
           \<and> pulls log2 = pulls log1
           \<and> (map_C s = None \<longrightarrow> pulls log1 = pulls log)
           \<and> pulls log1 + discards log \<le> pulls log + discards log1 + 1"
  using assms(2)
proof (cases rule: end_cases)
  case ended
  then show ?thesis by (simp add: librdf_stream_end_def)
next
  case (direct c)
  with assms(1) have c: "c = context_C s" by (simp add: side_effect_free_def)
  show ?thesis
  proof (cases "e1 = 0")
    case True
    with direct c have "stream1 = Some s" by simp
    with direct c True show ?thesis by (simp add: librdf_stream_end_def)
  next
    case False
    with direct show ?thesis by (simp add: librdf_stream_end_def)
  qed
next
  case buffered
  then show ?thesis by (auto simp: librdf_stream_end_def)
next
  case (latched s1)
  from loop_log [OF latched(4)] obtain new where "log1 = log @ new" "loop_calls new None"
    by blast
  with latched show ?thesis by (auto simp: librdf_stream_end_def loop_calls_def)
next
  case (looked_ahead s1 st)
  from loop_log [OF looked_ahead(4)] obtain new where "log1 = log @ new" "loop_calls new (Some st)"
    by blast
  moreover from loop_frame [OF looked_ahead(4)] looked_ahead(1,2)
  have "is_end_stream_C s1 = 0" "map_C s1 \<noteq> None" by auto
  ultimately show ?thesis using looked_ahead
    by (auto simp: librdf_stream_end_def loop_calls_def)
qed


theorem end_twice_witness:
  "side_effect_free (list_end_of_stream :: nat list \<Rightarrow> fault + int \<times> nat list)
   \<and> librdf_stream_end (Some ((list_stream [2, 4, 1 :: nat])\<lparr>map_C := Some odd_only\<rparr>)) []
       = Some (Inr (0, Some ((list_stream [])\<lparr>map_C := Some odd_only, next_C := Some 1\<rparr>),
           [Call_end_of_stream, Call_next_statement, Call_map 2 None,
            Call_end_of_stream, Call_next_statement, Call_map 4 None,
            Call_end_of_stream, Call_next_statement, Call_map 1 (Some 1)]))
   \<and> (\<exists>e2 log2.
         librdf_stream_end (Some ((list_stream [])\<lparr>map_C := Some odd_only, next_C := Some 1\<rparr>))
           [Call_end_of_stream, Call_next_statement, Call_map 2 None,
            Call_end_of_stream, Call_next_statement, Call_map 4 None,
            Call_end_of_stream, Call_next_statement, Call_map 1 (Some 1)]
         = Some (Inr (e2, Some ((list_stream [])\<lparr>map_C := Some odd_only, next_C := Some 1\<rparr>), log2))
         \<and> e2 = 0 \<and> pulls log2 = 3 \<and> discards log2 = 2)"
proof -
  have sef: "side_effect_free (end_of_stream_C ((list_stream [2, 4, 1 :: nat])\<lparr>map_C := Some odd_only\<rparr>))"
    by (simp add: side_effect_free_def list_producer_defs)
  have first: "librdf_stream_end (Some ((list_stream [2, 4, 1 :: nat])\<lparr>map_C := Some odd_only\<rparr>)) []
       = Some (Inr (0, Some ((list_stream [])\<lparr>map_C := Some odd_only, next_C := Some 1\<rparr>),
           [Call_end_of_stream, Call_next_statement, Call_map 2 None,
            Call_end_of_stream, Call_next_statement, Call_map 4 None,
            Call_end_of_stream, Call_next_statement, Call_map 1 (Some 1)]))"
    by (simp add: librdf_stream_end_def librdf_stream_get_next_mapped_statement.simps
          list_producer_defs)
  from end_twice [OF sef first] sef first show ?thesis
    by (auto simp: list_stream_def librdf_stream_end_def)
qed

section \<open>The adapter\<close>



lemma next_statement_empty:
  assumes "iterator_C scontext = Some []"
  shows "librdf_stream_from_node_iterator_next_statement K (scontext, env)
         = Inr (None, (scontext, env))"
  using assms
  by (simp add: librdf_stream_from_node_iterator_next_statement_def
        librdf_iterator_get_next_def)






text \<open>
  Claim C8. When a node has been pulled from the iterator and the clone of the prototype
  fails, the adapter's next operation releases that node and returns absent, as it does at
  the end of the sequence; it raises no fault, whatever the field selector.
\<close>

theorem clone_failure_is_exhaustion:
  assumes "iterator_C scontext = Some (node # rest)"
    and "env_allocs env = False # later"
  shows "librdf_stream_from_node_iterator_next_statement K (scontext, env)
         = Inr (None, (scontext\<lparr>iterator_C := Some rest\<rparr>,
                       env\<lparr>env_allocs := later,
                           env_freed_nodes := env_freed_nodes env @ [node]\<rparr>))"
  using assms
  by (simp add: librdf_stream_from_node_iterator_next_statement_def
        librdf_iterator_get_next_def librdf_new_statement_from_statement_def LIBRDF_CALLOC_def)

theorem clone_failure_is_exhaustion_witness:
  "librdf_stream_from_node_iterator_next_statement selectors_124
     (\<lparr> iterator_C = Some [10, 20 :: nat],
         statement_C = \<lparr> subject_C = None, predicate_C = Some 5, object_C = Some 6 \<rparr>,
         field_C = 1 \<rparr>,
      \<lparr> env_allocs = [False], env_freed_nodes = [], env_freed_iterators = 0,
         env_freed_contexts = 0 \<rparr>)
   = Inr (None,
       (\<lparr> iterator_C = Some [20],
           statement_C = \<lparr> subject_C = None, predicate_C = Some 5, object_C = Some 6 \<rparr>,
           field_C = 1 \<rparr>,
        \<lparr> env_allocs = [], env_freed_nodes = [10], env_freed_iterators = 0,
           env_freed_contexts = 0 \<rparr>))"
  using clone_failure_is_exhaustion
    [of "\<lparr> iterator_C = Some [10, 20 :: nat],
         statement_C = \<lparr> subject_C = None, predicate_C = Some 5, object_C = Some 6 \<rparr>,
         field_C = 1 \<rparr>" 10 "[20]"
        "\<lparr> env_allocs = [False], env_freed_nodes = [], env_freed_iterators = 0,
           env_freed_contexts = 0 \<rparr>" "[]" selectors_124]
  by simp


text \<open>
  Claim C7, as stated, fails: an adapter built with a selector that is none of subject,
  predicate and object over an empty node sequence is constructed without error, and its
  first next operation returns absent; the fatal path is not reached.
\<close>

theorem invalid_selector_counterexample:
  "(7 :: 32 word) \<noteq> LIBRDF_STATEMENT_SUBJECT selectors_124
   \<and> (7 :: 32 word) \<noteq> LIBRDF_STATEMENT_PREDICATE selectors_124
   \<and> (7 :: 32 word) \<noteq> LIBRDF_STATEMENT_OBJECT selectors_124
   \<and> (librdf_new_stream_from_node_iterator selectors_124 fresh_environment (Some [])
         \<lparr> subject_C = None, predicate_C = Some 5, object_C = Some 6 \<rparr> 7
        :: fault + ((nat adapter, unit, nat librdf_statement) librdf_stream option
                    \<times> nat environment))
       = Inr (Some \<lparr> context_C =
                       (\<lparr> iterator_C = Some [],
                           statement_C = \<lparr> subject_C = None, predicate_C = Some 5,
                                            object_C = Some 6 \<rparr>,
                           field_C = 7 \<rparr>, fresh_environment),
                     end_of_stream_C = librdf_stream_from_node_iterator_end_of_stream,
                     next_statement_C =
                       librdf_stream_from_node_iterator_next_statement selectors_124,
                     finished_C = librdf_stream_from_node_iterator_finished,
                     map_C = None, map_context_C = None, next_C = None,
                     is_end_stream_C = 0 \<rparr>,
              fresh_environment)
   \<and> librdf_stream_from_node_iterator_next_statement selectors_124
         (\<lparr> iterator_C = Some ([] :: nat list),
             statement_C = \<lparr> subject_C = None, predicate_C = Some 5, object_C = Some 6 \<rparr>,
             field_C = 7 \<rparr>, fresh_environment)
       = Inr (None,
              (\<lparr> iterator_C = Some [],
                  statement_C = \<lparr> subject_C = None, predicate_C = Some 5, object_C = Some 6 \<rparr>,
                  field_C = 7 \<rparr>, fresh_environment))"
  by (simp add: selectors_124_def fresh_environment_def librdf_new_stream_from_node_iterator_def
        librdf_new_stream_def LIBRDF_CALLOC_def librdf_stream_from_node_iterator_next_statement_def
        librdf_iterator_get_next_def Let_def)

text \<open>
  Claim C7, amended. Constructing the adapter never reaches the fatal path and does not
  look at the field selector: with a valid iterator pointer and both allocations
  succeeding it returns a stream that holds the selector as given. For a selector outside
  subject, predicate and object the fatal path is taken by the first next operation that
  pulls a node and clones the prototype; a next operation that finds the node sequence
  empty returns absent. For a selector among the three the next operation never takes the
  fatal path.
\<close>

theorem selector_checked_after_pull:
  "(librdf_new_stream_from_node_iterator K env iterator statement field
      :: fault + (('n adapter, 'm, 'n librdf_statement) librdf_stream option \<times> 'n environment))
     \<noteq> Inl Fatal_Abort
   \<and> (LIBRDF_CALLOC (env_allocs env) = (True, allocs_a) \<longrightarrow>
      LIBRDF_CALLOC allocs_a = (True, allocs_b) \<longrightarrow> iterator = Some it \<longrightarrow>
        (librdf_new_stream_from_node_iterator K env iterator statement field
           :: fault + (('n adapter, 'm, 'n librdf_statement) librdf_stream option
                       \<times> 'n environment))
          = Inr (Some \<lparr> context_C =
                          (\<lparr> iterator_C = iterator, statement_C = statement,
                              field_C = field \<rparr>, env\<lparr>env_allocs := allocs_b\<rparr>),
                        end_of_stream_C = librdf_stream_from_node_iterator_end_of_stream,
                        next_statement_C = librdf_stream_from_node_iterator_next_statement K,
                        finished_C = librdf_stream_from_node_iterator_finished,
                        map_C = None, map_context_C = None, next_C = None,
                        is_end_stream_C = 0 \<rparr>,
                 env\<lparr>env_allocs := allocs_b\<rparr>))
   \<and> (field_C scontext \<noteq> LIBRDF_STATEMENT_SUBJECT K \<longrightarrow>
      field_C scontext \<noteq> LIBRDF_STATEMENT_PREDICATE K \<longrightarrow>
      field_C scontext \<noteq> LIBRDF_STATEMENT_OBJECT K \<longrightarrow>
        (iterator_C scontext = Some (node # rest) \<longrightarrow>
         LIBRDF_CALLOC (env_allocs env_n) = (True, later) \<longrightarrow>
           librdf_stream_from_node_iterator_next_statement K (scontext, env_n) = Inl Fatal_Abort)
        \<and> (iterator_C scontext = Some [] \<longrightarrow>
           librdf_stream_from_node_iterator_next_statement K (scontext, env_n)
             = Inr (None, (scontext, env_n))))
   \<and> (field_C scontext = LIBRDF_STATEMENT_SUBJECT K
        \<or> field_C scontext = LIBRDF_STATEMENT_PREDICATE K
        \<or> field_C scontext = LIBRDF_STATEMENT_OBJECT K \<longrightarrow>
      librdf_stream_from_node_iterator_next_statement K (scontext, env_n) \<noteq> Inl Fatal_Abort)"
proof (intro conjI impI)
  show "(librdf_new_stream_from_node_iterator K env iterator statement field
      :: fault + (('n adapter, 'm, 'n librdf_statement) librdf_stream option \<times> 'n environment))
     \<noteq> Inl Fatal_Abort"
    by (simp add: librdf_new_stream_from_node_iterator_def librdf_new_stream_def
          librdf_stream_from_node_iterator_finished_def Let_def
          split: prod.splits bool.splits option.splits)
next
  assume "LIBRDF_CALLOC (env_allocs env) = (True, allocs_a)"
    "LIBRDF_CALLOC allocs_a = (True, allocs_b)" "iterator = Some it"
  then show "(librdf_new_stream_from_node_iterator K env iterator statement field
           :: fault + (('n adapter, 'm, 'n librdf_statement) librdf_stream option
                       \<times> 'n environment))
          = Inr (Some \<lparr> context_C =
                          (\<lparr> iterator_C = iterator, statement_C = statement,
                              field_C = field \<rparr>, env\<lparr>env_allocs := allocs_b\<rparr>),
                        end_of_stream_C = librdf_stream_from_node_iterator_end_of_stream,
                        next_statement_C = librdf_stream_from_node_iterator_next_statement K,
                        finished_C = librdf_stream_from_node_iterator_finished,
                        map_C = None, map_context_C = None, next_C = None,
                        is_end_stream_C = 0 \<rparr>,
                 env\<lparr>env_allocs := allocs_b\<rparr>)"
    by (simp add: librdf_new_stream_from_node_iterator_def librdf_new_stream_def Let_def)
next
  assume "field_C scontext \<noteq> LIBRDF_STATEMENT_SUBJECT K"
    "field_C scontext \<noteq> LIBRDF_STATEMENT_PREDICATE K"
    "field_C scontext \<noteq> LIBRDF_STATEMENT_OBJECT K"
    "iterator_C scontext = Some (node # rest)"
    "LIBRDF_CALLOC (env_allocs env_n) = (True, later)"
  then show "librdf_stream_from_node_iterator_next_statement K (scontext, env_n) = Inl Fatal_Abort"
    by (simp add: librdf_stream_from_node_iterator_next_statement_def
          librdf_iterator_get_next_def librdf_new_statement_from_statement_def)
next
  assume "iterator_C scontext = Some []"
  then show "librdf_stream_from_node_iterator_next_statement K (scontext, env_n)
             = Inr (None, (scontext, env_n))"
    by (rule next_statement_empty)
next
  assume "field_C scontext = LIBRDF_STATEMENT_SUBJECT K
        \<or> field_C scontext = LIBRDF_STATEMENT_PREDICATE K
        \<or> field_C scontext = LIBRDF_STATEMENT_OBJECT K"
  then show "librdf_stream_from_node_iterator_next_statement K (scontext, env_n) \<noteq> Inl Fatal_Abort"
    by (auto simp: librdf_stream_from_node_iterator_next_statement_def Let_def
          split: option.splits prod.splits)
qed


theorem selector_checked_after_pull_witness:
  "LIBRDF_CALLOC (env_allocs (fresh_environment :: nat environment)) = (True, [])
   \<and> (librdf_new_stream_from_node_iterator selectors_124 fresh_environment (Some [10])
         \<lparr> subject_C = None, predicate_C = Some 5, object_C = Some 6 \<rparr> 7
        :: fault + ((nat adapter, unit, nat librdf_statement) librdf_stream option
                    \<times> nat environment))
       = Inr (Some \<lparr> context_C =
                       (\<lparr> iterator_C = Some [10],
                           statement_C = \<lparr> subject_C = None, predicate_C = Some 5,
                                            object_C = Some 6 \<rparr>,
                           field_C = 7 \<rparr>, fresh_environment),
                     end_of_stream_C = librdf_stream_from_node_iterator_end_of_stream,
                     next_statement_C =
                       librdf_stream_from_node_iterator_next_statement selectors_124,
                     finished_C = librdf_stream_from_node_iterator_finished,
                     map_C = None, map_context_C = None, next_C = None,
                     is_end_stream_C = 0 \<rparr>,
              fresh_environment)
   \<and> (7 :: 32 word) \<noteq> LIBRDF_STATEMENT_SUBJECT selectors_124
   \<and> (7 :: 32 word) \<noteq> LIBRDF_STATEMENT_PREDICATE selectors_124
   \<and> (7 :: 32 word) \<noteq> LIBRDF_STATEMENT_OBJECT selectors_124
   \<and> librdf_stream_from_node_iterator_next_statement selectors_124
         (\<lparr> iterator_C = Some [10 :: nat],
             statement_C = \<lparr> subject_C = None, predicate_C = Some 5, object_C = Some 6 \<rparr>,
             field_C = 7 \<rparr>, fresh_environment)
       = Inl Fatal_Abort
   \<and> librdf_stream_from_node_iterator_next_statement selectors_124
         (\<lparr> iterator_C = Some ([] :: nat list),
             statement_C = \<lparr> subject_C = None, predicate_C = Some 5, object_C = Some 6 \<rparr>,
             field_C = 7 \<rparr>, fresh_environment)
       = Inr (None,
              (\<lparr> iterator_C = Some [],
                  statement_C = \<lparr> subject_C = None, predicate_C = Some 5, object_C = Some 6 \<rparr>,
                  field_C = 7 \<rparr>, fresh_environment))
   \<and> (2 :: 32 word) = LIBRDF_STATEMENT_PREDICATE selectors_124
   \<and> librdf_stream_from_node_iterator_next_statement selectors_124
         (\<lparr> iterator_C = Some [10 :: nat],
             statement_C = \<lparr> subject_C = None, predicate_C = Some 5, object_C = Some 6 \<rparr>,
             field_C = 2 \<rparr>, fresh_environment)
       \<noteq> Inl Fatal_Abort"
  using
    selector_checked_after_pull
      [where ?'m = unit and K = selectors_124 and env = "fresh_environment :: nat environment"
         and iterator = "Some [10]" and it = "[10]" and allocs_a = "[]" and allocs_b = "[]"
         and statement = "\<lparr> subject_C = None, predicate_C = Some 5, object_C = Some 6 \<rparr>"
         and field = 7 and env_n = fresh_environment and node = 10 and rest = "[]"
         and later = "[]"
         and scontext = "\<lparr> iterator_C = Some [10 :: nat],
             statement_C = \<lparr> subject_C = None, predicate_C = Some 5, object_C = Some 6 \<rparr>,
             field_C = 7 \<rparr>"]
    selector_checked_after_pull
      [where ?'m = unit and K = selectors_124 and env = "fresh_environment :: nat environment"
         and iterator = "Some [10]" and it = "[10]" and allocs_a = "[]" and allocs_b = "[]"
         and statement = "\<lparr> subject_C = None, predicate_C = Some 5, object_C = Some 6 \<rparr>"
         and field = 7 and env_n = fresh_environment and node = 10 and rest = "[]"
         and later = "[]"
         and scontext = "\<lparr> iterator_C = Some ([] :: nat list),
             statement_C = \<lparr> subject_C = None, predicate_C = Some 5, object_C = Some 6 \<rparr>,
             field_C = 7 \<rparr>"]
    selector_checked_after_pull
      [where ?'m = unit and K = selectors_124 and env = "fresh_environment :: nat environment"
         and iterator = "Some [10]" and it = "[10]" and allocs_a = "[]" and allocs_b = "[]"
         and statement = "\<lparr> subject_C = None, predicate_C = Some 5, object_C = Some 6 \<rparr>"
         and field = 7 and env_n = fresh_environment and node = 10 and rest = "[]"
         and later = "[]"
         and scontext = "\<lparr> iterator_C = Some [10 :: nat],
             statement_C = \<lparr> subject_C = None, predicate_C = Some 5, object_C = Some 6 \<rparr>,
             field_C = 2 \<rparr>"]
  by (simp add: selectors_124_def fresh_environment_def LIBRDF_CALLOC_def)

end
